theory Spec2Isabelle
  imports Complex_Main "HOL-Library.Log_Nat" "HOL-Library.Stream"
begin

section \<open>Go's float64, as far as the breaker uses it\<close>

text \<open>
  \<^verbatim>\<open>breaker.Allow\<close> converts two int64 counters to float64, divides, subtracts,
  compares with \<^verbatim>\<open><\<close> and calls \<^verbatim>\<open>math.Max\<close>. These operations are modelled on
  binary64 values exactly: a finite value is \<open>m * 2 ^ e\<close> for integers \<open>m\<close> and \<open>e\<close>
  (\<open>Finite m e\<close>, with \<open>Finite 0 e\<close> the positive zero), next to the negative zero, the
  two infinities and NaN. Every operation computes the exact result as a fraction of
  integers and rounds it to the nearest binary64 value, ties to the even significand.
\<close>

datatype float64 = Finite int int | NegZero | PInf | NInf | NaN

text \<open>The pairs that denote binary64 numbers: at most 53 significant bits, exponent in range.\<close>

fun is_float64 :: "float64 \<Rightarrow> bool" where
  "is_float64 (Finite m e) = (\<bar>m\<bar> < 2 ^ 53 \<and> - 1074 \<le> e \<and> e \<le> 971)"
| "is_float64 _ = True"

text \<open>\<open>n / d\<close> rounded to the nearest integer, ties to even (\<open>0 < d\<close>).\<close>

definition rne_pick :: "int \<Rightarrow> int \<Rightarrow> int \<Rightarrow> int" where
  "rne_pick f r d =
     (if 2 * r < d then f else if d < 2 * r then f + 1 else if even f then f else f + 1)"

definition rne_div :: "int \<Rightarrow> int \<Rightarrow> int" where
  "rne_div n d = rne_pick (n div d) (n mod d) d"

text \<open>The binade of \<open>n / d\<close> for positive \<open>n\<close> and \<open>d\<close>: the \<open>k\<close> with \<open>2 ^ k \<le> n / d < 2 ^ (k + 1)\<close>.\<close>

definition binade_adj :: "int \<Rightarrow> int \<Rightarrow> int \<Rightarrow> int" where
  "binade_adj n d k =
     (if (if 0 \<le> k then d * 2 ^ nat k \<le> n else d \<le> n * 2 ^ nat (- k)) then k else k - 1)"

definition binade :: "int \<Rightarrow> int \<Rightarrow> int" where
  "binade n d = binade_adj n d (bitlen n - bitlen d)"

definition zero_of :: "bool \<Rightarrow> float64" where
  "zero_of s = (if s then NegZero else Finite 0 0)"

definition inf_of :: "bool \<Rightarrow> float64" where
  "inf_of s = (if s then NInf else PInf)"

text \<open>
  Rounding of the fraction \<open>n / d\<close> (\<open>0 < d\<close>) to binary64, round-to-nearest-even. The
  last place of the result is \<open>2 ^ q\<close>: the significand has 53 bits in the normal range
  and \<open>q\<close> stops at \<open>- 1074\<close> (subnormal numbers). A significand rounded up to \<open>2 ^ 53\<close>
  is renormalised; a result of magnitude \<open>2 ^ 1024\<close> or more is an infinity, and a result
  rounded to zero keeps the sign of the exact value.
\<close>

definition pack :: "bool \<Rightarrow> int \<Rightarrow> int \<Rightarrow> float64" where
  "pack neg m q = (if 971 < q then inf_of neg else if m = 0 then zero_of neg else Finite m q)"

definition normalise_pack :: "bool \<Rightarrow> int \<Rightarrow> int \<Rightarrow> float64" where
  "normalise_pack neg m q = (if \<bar>m\<bar> = 2 ^ 53 then pack neg (m div 2) (q + 1) else pack neg m q)"

definition rne_scaled :: "int \<Rightarrow> int \<Rightarrow> int \<Rightarrow> int" where
  "rne_scaled n d q = (if 0 \<le> q then rne_div n (d * 2 ^ nat q) else rne_div (n * 2 ^ nat (- q)) d)"

definition round_at :: "int \<Rightarrow> int \<Rightarrow> int \<Rightarrow> float64" where
  "round_at n d q = normalise_pack (n < 0) (rne_scaled n d q) q"

definition round_frac :: "int \<Rightarrow> int \<Rightarrow> float64" where
  "round_frac n d =
     (if n = 0 then Finite 0 0 else round_at n d (max (binade \<bar>n\<bar> d) (- 1022) - 52))"

text \<open>Rounding of \<open>(n / d) * 2 ^ k\<close>.\<close>

definition round_scaled :: "int \<Rightarrow> int \<Rightarrow> int \<Rightarrow> float64" where
  "round_scaled n d k = (if 0 \<le> k then round_frac (n * 2 ^ nat k) d else round_frac n (d * 2 ^ nat (- k)))"

text \<open>The conversion \<^verbatim>\<open>float64(x)\<close> of an int64.\<close>

definition float64_of_int64 :: "int \<Rightarrow> float64" where
  "float64_of_int64 n = round_frac n 1"

fun is_nan :: "float64 \<Rightarrow> bool" where
  "is_nan NaN = True"
| "is_nan _ = False"

fun is_inf :: "float64 \<Rightarrow> bool" where
  "is_inf PInf = True"
| "is_inf NInf = True"
| "is_inf _ = False"

fun is_zero :: "float64 \<Rightarrow> bool" where
  "is_zero (Finite m e) = (m = 0)"
| "is_zero NegZero = True"
| "is_zero _ = False"

text \<open>The sign bit.\<close>

fun signbit :: "float64 \<Rightarrow> bool" where
  "signbit (Finite m e) = (m < 0)"
| "signbit NegZero = True"
| "signbit NInf = True"
| "signbit _ = False"

text \<open>Significand and exponent of a finite value (both zeros are \<open>0 * 2 ^ 0\<close>).\<close>

fun mant :: "float64 \<Rightarrow> int" where
  "mant (Finite m e) = m"
| "mant _ = 0"

fun expo :: "float64 \<Rightarrow> int" where
  "expo (Finite m e) = e"
| "expo _ = 0"

text \<open>
  The quotient \<^verbatim>\<open>x / y\<close>. Dividing by a zero is no panic in float64: it is an infinity,
  or NaN when the dividend is a zero too.
\<close>

definition f64_div :: "float64 \<Rightarrow> float64 \<Rightarrow> float64" where
  "f64_div x y =
     (if is_nan x \<or> is_nan y then NaN
      else if is_inf x then (if is_inf y then NaN else inf_of (signbit x \<noteq> signbit y))
      else if is_inf y then zero_of (signbit x \<noteq> signbit y)
      else if is_zero y then (if is_zero x then NaN else inf_of (signbit x \<noteq> signbit y))
      else if is_zero x then zero_of (signbit x \<noteq> signbit y)
      else round_scaled (mant x * sgn (mant y)) \<bar>mant y\<bar> (expo x - expo y))"

text \<open>
  The difference \<^verbatim>\<open>x - y\<close>, computed at the smaller of the two exponents; an exact zero
  difference is the positive zero, except \<open>-0 - +0\<close>.
\<close>

definition sub_at :: "float64 \<Rightarrow> float64 \<Rightarrow> int \<Rightarrow> float64" where
  "sub_at x y e = round_scaled (mant x * 2 ^ nat (expo x - e) - mant y * 2 ^ nat (expo y - e)) 1 e"

definition f64_sub :: "float64 \<Rightarrow> float64 \<Rightarrow> float64" where
  "f64_sub x y =
     (if is_nan x \<or> is_nan y then NaN
      else if is_inf x then (if is_inf y \<and> signbit x = signbit y then NaN else x)
      else if is_inf y then inf_of (\<not> signbit y)
      else if is_zero x \<and> is_zero y then zero_of (signbit x \<and> \<not> signbit y)
      else sub_at x y (min (expo x) (expo y)))"

text \<open>The comparison \<^verbatim>\<open>x < y\<close>: false when either side is NaN; the two zeros are equal.\<close>

definition lt_at :: "float64 \<Rightarrow> float64 \<Rightarrow> int \<Rightarrow> bool" where
  "lt_at x y e = (mant x * 2 ^ nat (expo x - e) < mant y * 2 ^ nat (expo y - e))"

definition f64_lt :: "float64 \<Rightarrow> float64 \<Rightarrow> bool" where
  "f64_lt x y =
     (if is_nan x \<or> is_nan y then False
      else if x = PInf \<or> y = NInf then False
      else if x = NInf \<or> y = PInf then True
      else lt_at x y (min (expo x) (expo y)))"

text \<open>
  \<^verbatim>\<open>math.Max(x, y)\<close> with the special cases of the Go library, in its order:
  an argument \<open>+Inf\<close> gives \<open>+Inf\<close>, then a NaN gives NaN, and of two zeros the positive
  one wins.
\<close>

definition f64_max :: "float64 \<Rightarrow> float64 \<Rightarrow> float64" where
  "f64_max x y =
     (if x = PInf \<or> y = PInf then PInf
      else if is_nan x \<or> is_nan y then NaN
      else if is_zero x \<and> is_zero y then (if signbit x then y else x)
      else if f64_lt y x then x else y)"

section \<open>The collaborators: rolling window, random generators, pool\<close>

text \<open>
  Modelled from the spec: the rolling window of package \<^verbatim>\<open>github.com/yimi-go/window\<close>,
  whose source is not part of this repository. It keeps time-bucketed counters; \<open>Add\<close>
  records one observation in the bucket of the current instant, \<open>Sum\<close> and \<open>Count\<close>
  aggregate the recorded values and the number of observations over the trailing
  \<open>size\<close> buckets, and a bucket older than that span no longer contributes. The clock
  reading (\<^verbatim>\<open>window.Now()\<close>, in nanoseconds) is an explicit argument.
\<close>

record bucket =
  index :: int
  bsum :: int
  bcount :: int

record window =
  size :: int
  duration :: int
  buckets :: "bucket list"

definition NewWindow :: "int \<Rightarrow> int \<Rightarrow> window" where
  "NewWindow n d = \<lparr>size = n, duration = d, buckets = []\<rparr>"

definition bucketOf :: "window \<Rightarrow> int \<Rightarrow> int" where
  "bucketOf w now = now div duration w"

definition live :: "window \<Rightarrow> int \<Rightarrow> bucket \<Rightarrow> bool" where
  "live w now b = (bucketOf w now - size w < index b \<and> index b \<le> bucketOf w now)"

fun record_in :: "int \<Rightarrow> int \<Rightarrow> bucket list \<Rightarrow> bucket list" where
  "record_in i v [] = [\<lparr>index = i, bsum = v, bcount = 1\<rparr>]"
| "record_in i v (b # bs) =
     (if index b = i then b\<lparr>bsum := bsum b + v, bcount := bcount b + 1\<rparr> # bs
      else b # record_in i v bs)"

definition Add :: "window \<Rightarrow> int \<Rightarrow> int \<Rightarrow> window" where
  "Add w now v = w\<lparr>buckets := record_in (bucketOf w now) v (filter (live w now) (buckets w))\<rparr>"

definition Sum :: "window \<Rightarrow> int \<Rightarrow> int" where
  "Sum w now = sum_list (map bsum (filter (live w now) (buckets w)))"

definition Count :: "window \<Rightarrow> int \<Rightarrow> int" where
  "Count w now = sum_list (map bcount (filter (live w now) (buckets w)))"

text \<open>
  A \<^verbatim>\<open>*rand.Rand\<close> is the stream of the values its successive \<^verbatim>\<open>Float64()\<close> calls
  return; a call takes the head and advances the generator.
\<close>

type_synonym rand = "float64 stream"

definition Float64 :: "rand \<Rightarrow> float64 \<times> rand" where
  "Float64 r = (shd r, stl r)"

text \<open>
  The \<^verbatim>\<open>sync.Pool\<close> of generators: \<open>Get\<close> hands out an idle generator, or the one the
  pool's \<^verbatim>\<open>New\<close> function creates at that moment (seeded from the clock, so it is an
  input: \<open>fresh\<close>); \<open>Put\<close> returns a generator to the pool.
\<close>

record pool =
  idle :: "rand list"

definition pool_Get :: "pool \<Rightarrow> rand \<Rightarrow> rand \<times> pool" where
  "pool_Get p fresh = (case idle p of [] \<Rightarrow> (fresh, p) | g # gs \<Rightarrow> (g, p\<lparr>idle := gs\<rparr>))"

definition pool_Put :: "pool \<Rightarrow> rand \<Rightarrow> pool" where
  "pool_Put p g = p\<lparr>idle := g # idle p\<rparr>"

text \<open>
  Go's \<^verbatim>\<open>error\<close> is an open interface: \<open>ErrNotAllowed\<close> is the sentinel of package
  \<^verbatim>\<open>circuit_breaker\<close>, \<open>OtherError\<close> stands for every other error value.
\<close>

datatype error = ErrNotAllowed | OtherError string

section \<open>The breaker (sre.go)\<close>

record options =
  opt_isr :: float64
  opt_ignoreRequests :: int
  opt_buckets :: int
  opt_requireBucketDuration :: int

type_synonym Option = "options \<Rightarrow> options"

definition WithInspirationSuccessRate :: "float64 \<Rightarrow> Option" where
  "WithInspirationSuccessRate x = (\<lambda>opt. opt\<lparr>opt_isr := x\<rparr>)"

definition WithIgnoreRequest :: "int \<Rightarrow> Option" where
  "WithIgnoreRequest ir = (\<lambda>opt. opt\<lparr>opt_ignoreRequests := ir\<rparr>)"

definition WithRequireBucketDuration :: "int \<Rightarrow> Option" where
  "WithRequireBucketDuration d = (\<lambda>opt. opt\<lparr>opt_requireBucketDuration := d\<rparr>)"

definition WithBuckets :: "int \<Rightarrow> Option" where
  "WithBuckets n = (\<lambda>opt. opt\<lparr>opt_buckets := n\<rparr>)"

text \<open>
  The breaker. \<open>dropProba\<close> receives the generator and the probability; it may advance
  the generator, so it returns it with its verdict.
\<close>

record breaker =
  stat :: window
  rnd :: pool
  dropProba :: "rand \<Rightarrow> float64 \<Rightarrow> bool \<times> rand"
  isr :: float64
  ignoreRequests :: int

text \<open>The default \<open>dropProba\<close> of \<open>New\<close>: \<^verbatim>\<open>r.Float64() < proba\<close>.\<close>

definition default_dropProba :: "rand \<Rightarrow> float64 \<Rightarrow> bool \<times> rand" where
  "default_dropProba r proba = (let (x, r') = Float64 r in (f64_lt x proba, r'))"

definition default_options :: options where
  "default_options =
     \<lparr>opt_isr = Finite 1 (- 1), opt_ignoreRequests = 100, opt_buckets = 10,
      opt_requireBucketDuration = 2 ^ 28\<rparr>"

definition New :: "Option list \<Rightarrow> breaker" where
  "New opts =
     (let opt = foldl (\<lambda>acc o'. o' acc) default_options opts;
          stat = NewWindow (opt_buckets opt) (opt_requireBucketDuration opt)
      in \<lparr>stat = stat, rnd = \<lparr>idle = []\<rparr>, dropProba = default_dropProba,
          isr = opt_isr opt, ignoreRequests = opt_ignoreRequests opt\<rparr>)"

definition summary :: "breaker \<Rightarrow> int \<Rightarrow> int \<times> int" where
  "summary b now = (let total = Count (stat b) now; success = Sum (stat b) now in (success, total))"

text \<open>
  The int64 values of the code (\<open>ignoreRequests\<close>, the two counts) are integers; the one
  int64 operation that can leave the range, the sum \<open>total + 1\<close>, wraps around.
\<close>

definition wrap64 :: "int \<Rightarrow> int" where
  "wrap64 x = (x + 2 ^ 63) mod 2 ^ 64 - 2 ^ 63"

text \<open>
  \<open>Allow\<close> at clock reading \<open>now\<close>; the result is \<open>None\<close> for Go's \<^verbatim>\<open>nil\<close>. The deferred
  \<open>Put\<close> runs on both exits that follow the \<open>Get\<close>.
\<close>

definition Allow :: "breaker \<Rightarrow> int \<Rightarrow> rand \<Rightarrow> error option \<times> breaker" where
  "Allow b now fresh =
     (let (accepts, total) = summary b now;
          inspirationRequests = f64_div (float64_of_int64 accepts) (isr b)
      in if total < ignoreRequests b \<or> f64_lt (float64_of_int64 total) inspirationRequests
         then (None, b)
         else
           let dr = f64_max (Finite 0 0)
                      (f64_div (f64_sub (float64_of_int64 total) inspirationRequests)
                         (float64_of_int64 (wrap64 (total + 1))));
               (r, p) = pool_Get (rnd b) fresh;
               (drop, r') = dropProba b r dr;
               b' = b\<lparr>rnd := pool_Put p r'\<rparr>
           in if drop then (Some ErrNotAllowed, b') else (None, b'))"

definition MarkSuccess :: "breaker \<Rightarrow> int \<Rightarrow> breaker" where
  "MarkSuccess b now = b\<lparr>stat := Add (stat b) now 1\<rparr>"

definition MarkFailed :: "breaker \<Rightarrow> int \<Rightarrow> breaker" where
  "MarkFailed b now = b\<lparr>stat := Add (stat b) now 0\<rparr>"

section \<open>The statements of the specification\<close>

text \<open>
  The self-protection guard in the spec's words: the window holds fewer requests than
  \<open>ignoreRequests\<close>, or fewer than \<open>successCount / isr\<close> (both sides in float64, as
  \<open>Allow\<close> compares them).
\<close>

definition guard_fires :: "breaker \<Rightarrow> int \<Rightarrow> int \<Rightarrow> bool" where
  "guard_fires b accepts tot =
     (tot < ignoreRequests b \<or>
      f64_lt (float64_of_int64 tot) (f64_div (float64_of_int64 accepts) (isr b)))"

text \<open>
  The drop probability in the spec's words:
  \<open>max(0, (totalCount - successCount / isr) / (totalCount + 1))\<close>, with the float64
  operations of the code and the int64 sum \<open>totalCount + 1\<close>.
\<close>

definition spec_dr :: "float64 \<Rightarrow> int \<Rightarrow> int \<Rightarrow> float64" where
  "spec_dr x accepts tot =
     f64_max (Finite 0 0)
       (f64_div (f64_sub (float64_of_int64 tot) (f64_div (float64_of_int64 accepts) x))
          (float64_of_int64 (wrap64 (tot + 1))))"

text \<open>A drop policy that ignores the generator and the probability.\<close>

definition const_dropProba :: "bool \<Rightarrow> rand \<Rightarrow> float64 \<Rightarrow> bool \<times> rand" where
  "const_dropProba c = (\<lambda>r proba. (c, r))"

text \<open>
  A caller's use of the breaker: a sequence of calls, each at its clock reading; an
  \<open>Allow\<close> call comes with the generator a pool miss would create.
\<close>

datatype call = CallAllow rand | CallMarkSuccess | CallMarkFailed

fun step :: "breaker \<Rightarrow> call \<times> int \<Rightarrow> breaker" where
  "step b (CallAllow fresh, now) = snd (Allow b now fresh)"
| "step b (CallMarkSuccess, now) = MarkSuccess b now"
| "step b (CallMarkFailed, now) = MarkFailed b now"

text \<open>Every bucket holds at least as many observations as successes.\<close>

definition bucket_ok :: "bucket \<Rightarrow> bool" where
  "bucket_ok b = (0 \<le> bsum b \<and> bsum b \<le> bcount b)"

definition window_ok :: "window \<Rightarrow> bool" where
  "window_ok w = list_all bucket_ok (buckets w)"

text \<open>
  The breaker of the tests (\<^verbatim>\<open>getSREBreaker\<close> in sre\_test.go), and a breaker whose
  window holds \<open>s\<close> successes among \<open>t\<close> observations, all in the bucket of instant 0.
\<close>

definition getSREBreaker :: breaker where
  "getSREBreaker =
     \<lparr>stat = NewWindow 10 (2 ^ 26), rnd = \<lparr>idle = []\<rparr>, dropProba = default_dropProba,
      isr = Finite 1 (- 1), ignoreRequests = 100\<rparr>"

definition loaded :: "breaker \<Rightarrow> int \<Rightarrow> int \<Rightarrow> breaker" where
  "loaded b s t = b\<lparr>stat := (stat b)\<lparr>buckets := [\<lparr>index = 0, bsum = s, bcount = t\<rparr>]\<rparr>\<rparr>"

section \<open>Notions for the numeric claims\<close>

text \<open>The rational number that a finite value denotes.\<close>

fun f64_val :: "float64 \<Rightarrow> rat" where
  "f64_val (Finite m e) = of_int m * 2 powi e"
| "f64_val _ = 0"

text \<open>The values that are not negative: the positive zero, the positive binary64 numbers, \<open>+Inf\<close>.\<close>

fun nonneg64 :: "float64 \<Rightarrow> bool" where
  "nonneg64 (Finite m e) = (m = 0 \<and> e = 0 \<or> 0 < m \<and> is_float64 (Finite m e))"
| "nonneg64 PInf = True"
| "nonneg64 _ = False"

text \<open>Negation flips the sign bit.\<close>

fun f64_neg :: "float64 \<Rightarrow> float64" where
  "f64_neg (Finite m e) = (if m = 0 then NegZero else Finite (- m) e)"
| "f64_neg NegZero = Finite 0 0"
| "f64_neg PInf = NInf"
| "f64_neg NInf = PInf"
| "f64_neg NaN = NaN"

text \<open>The quotient of the drop probability before \<^verbatim>\<open>math.Max(0, _)\<close> clamps it.\<close>

definition unclamped_dr :: "float64 \<Rightarrow> int \<Rightarrow> int \<Rightarrow> float64" where
  "unclamped_dr x accepts tot =
     f64_div (f64_sub (float64_of_int64 tot) (f64_div (float64_of_int64 accepts) x))
       (float64_of_int64 (wrap64 (tot + 1)))"

section \<open>Evaluation on concrete inputs\<close>

text \<open>The defining equations that the simplifier unfolds to run the model on numerals.\<close>

lemmas f64_eval = round_frac_def round_at_def rne_scaled_def normalise_pack_def pack_def
  round_scaled_def binade_def binade_adj_def rne_div_def rne_pick_def compute_bitlen
  float64_of_int64_def f64_div_def f64_sub_def sub_at_def lt_at_def f64_lt_def f64_max_def
  zero_of_def inf_of_def wrap64_def

lemmas window_eval = summary_def Sum_def Count_def live_def bucketOf_def Add_def
  MarkSuccess_def MarkFailed_def NewWindow_def getSREBreaker_def loaded_def

section \<open>The two exits of Allow\<close>

lemma Allow_guard:
  assumes "summary b now = (accepts, tot)" and "guard_fires b accepts tot"
  shows "Allow b now fresh = (None, b)"
  using assms by (simp add: Allow_def guard_fires_def)

lemma Allow_no_guard:
  assumes "summary b now = (accepts, tot)" and "\<not> guard_fires b accepts tot"
  shows "Allow b now fresh =
    (let r = fst (pool_Get (rnd b) fresh); p = snd (pool_Get (rnd b) fresh);
         v = dropProba b r (spec_dr (isr b) accepts tot)
     in (if fst v then Some ErrNotAllowed else None, b\<lparr>rnd := pool_Put p (snd v)\<rparr>))"
  using assms by (simp add: Allow_def guard_fires_def spec_dr_def Let_def split: prod.splits)

section \<open>The window keeps its invariant\<close>

lemma record_in_ok:
  "list_all bucket_ok bs \<Longrightarrow> v = 0 \<or> v = 1 \<Longrightarrow> list_all bucket_ok (record_in i v bs)"
  by (induction bs) (auto simp: bucket_ok_def)

lemma filter_ok: "list_all bucket_ok bs \<Longrightarrow> list_all bucket_ok (filter P bs)"
  by (induction bs) auto

lemma Add_ok: "window_ok w \<Longrightarrow> v = 0 \<or> v = 1 \<Longrightarrow> window_ok (Add w now v)"
  by (simp add: window_ok_def Add_def record_in_ok filter_ok)

lemma sums_ok:
  "list_all bucket_ok bs \<Longrightarrow>
     0 \<le> sum_list (map bsum bs) \<and> sum_list (map bsum bs) \<le> sum_list (map bcount bs)"
  by (induction bs) (auto simp: bucket_ok_def)

lemma Sum_Count_ok: "window_ok w \<Longrightarrow> 0 \<le> Sum w now \<and> Sum w now \<le> Count w now"
  unfolding Sum_def Count_def window_ok_def by (intro sums_ok filter_ok)

lemma stat_Allow: "stat (snd (Allow b now fresh)) = stat b"
  by (simp add: Allow_def Let_def split: prod.splits)

lemma step_ok: "window_ok (stat b) \<Longrightarrow> window_ok (stat (step b c))"
proof (cases c)
  case (Pair k now)
  then show "window_ok (stat b) \<Longrightarrow> window_ok (stat (step b c))"
    by (cases k) (simp_all add: stat_Allow MarkSuccess_def MarkFailed_def Add_ok)
qed

lemma run_ok: "window_ok (stat b) \<Longrightarrow> window_ok (stat (foldl step b cs))"
  by (induction cs arbitrary: b) (simp_all add: step_ok)

lemma count_record_in:
  "sum_list (map bcount (record_in i v bs)) = sum_list (map bcount bs) + 1"
  by (induction bs) auto

lemma count_filter:
  "list_all bucket_ok bs \<Longrightarrow> sum_list (map bcount (filter P bs)) \<le> sum_list (map bcount bs)"
  by (induction bs) (auto simp: bucket_ok_def)

lemma count_Add:
  "window_ok w \<Longrightarrow>
     sum_list (map bcount (buckets (Add w now v))) \<le> sum_list (map bcount (buckets w)) + 1"
  using count_filter [of "buckets w" "live w now"]
  by (simp add: Add_def count_record_in window_ok_def)

lemma Count_le: "window_ok w \<Longrightarrow> Count w now \<le> sum_list (map bcount (buckets w))"
  by (simp add: Count_def count_filter window_ok_def)

lemma markFailed_run:
  "window_ok (stat b) \<Longrightarrow>
     window_ok (stat (foldl MarkFailed b ts))
     \<and> sum_list (map bcount (buckets (stat (foldl MarkFailed b ts))))
         \<le> sum_list (map bcount (buckets (stat b))) + int (length ts)
     \<and> ignoreRequests (foldl MarkFailed b ts) = ignoreRequests b"
proof (induction ts arbitrary: b)
  case Nil
  then show ?case by simp
next
  case (Cons t ts)
  have ok: "window_ok (stat (MarkFailed b t))"
    using Cons.prems by (simp add: MarkFailed_def Add_ok)
  have le: "sum_list (map bcount (buckets (stat (MarkFailed b t))))
              \<le> sum_list (map bcount (buckets (stat b))) + 1"
    using count_Add [OF Cons.prems, of t 0] by (simp add: MarkFailed_def)
  have ign: "ignoreRequests (MarkFailed b t) = ignoreRequests b"
    by (simp add: MarkFailed_def)
  from Cons.IH [OF ok] le ign show ?case by simp
qed

section \<open>Window states with given counts are reached by calls\<close>

lemma summary_loaded:
  "0 < size (stat b) \<Longrightarrow> summary (loaded b s t) 0 = (s, t)"
  by (simp add: summary_def loaded_def Sum_def Count_def live_def bucketOf_def)

lemma markSuccess_loaded:
  "MarkSuccess (loaded b s t) 0 = (if 0 < size (stat b) then loaded b (s + 1) (t + 1) else loaded b 1 1)"
  by (simp add: MarkSuccess_def loaded_def Add_def live_def bucketOf_def)

lemma markFailed_loaded:
  "MarkFailed (loaded b s t) 0 = (if 0 < size (stat b) then loaded b s (t + 1) else loaded b 0 1)"
  by (simp add: MarkFailed_def loaded_def Add_def live_def bucketOf_def)

lemma markFailed_fresh:
  "buckets (stat b) = [] \<Longrightarrow> MarkFailed b 0 = loaded b 0 1"
  by (simp add: MarkFailed_def loaded_def Add_def live_def bucketOf_def)

lemma markFailed_many:
  "0 < size (stat b) \<Longrightarrow>
     foldl MarkFailed (loaded b s t) (replicate n 0) = loaded b s (t + int n)"
proof (induction n arbitrary: t)
  case 0
  then show ?case by simp
next
  case (Suc n)
  then show ?case by (simp add: markFailed_loaded algebra_simps)
qed

lemma markSuccess_fresh:
  "buckets (stat b) = [] \<Longrightarrow> MarkSuccess b 0 = loaded b 1 1"
  by (simp add: MarkSuccess_def loaded_def Add_def live_def bucketOf_def)

lemma markSuccess_many:
  "0 < size (stat b) \<Longrightarrow>
     foldl MarkSuccess (loaded b s t) (replicate n 0) = loaded b (s + int n) (t + int n)"
proof (induction n arbitrary: s t)
  case 0
  then show ?case by simp
next
  case (Suc n)
  then show ?case by (simp add: markSuccess_loaded algebra_simps)
qed

text \<open>
  The breaker \<open>loaded b s t\<close> is what \<open>s\<close> calls of \<open>MarkSuccess\<close> and \<open>t - s\<close> calls of
  \<open>MarkFailed\<close>, all at instant 0, make of a breaker \<open>b\<close> with an empty window.
\<close>

lemma marks_reach_loaded:
  assumes "buckets (stat b) = []" and "0 < size (stat b)" and "0 < s + f"
  shows "foldl MarkFailed (foldl MarkSuccess b (replicate s 0)) (replicate f 0)
         = loaded b (int s) (int s + int f)"
proof (cases s)
  case 0
  with assms(3) obtain f' where f: "f = Suc f'" by (cases f) simp_all
  show ?thesis
    using markFailed_many [OF assms(2), where s = 0 and t = 1 and n = f'] markFailed_fresh [OF assms(1)]
    by (simp add: 0 f algebra_simps)
next
  case (Suc s')
  show ?thesis
    using markSuccess_many [OF assms(2), where s = 1 and t = 1 and n = s'] markSuccess_fresh [OF assms(1)]
      markFailed_many [OF assms(2), where s = "1 + int s'" and t = "1 + int s'" and n = f]
    by (simp add: Suc algebra_simps)
qed

section \<open>Rounding to binary64\<close>

lemma pow2_nat: "0 \<le> k \<Longrightarrow> (2::rat) powi k = of_int (2 ^ nat k)"
  by (simp add: power_int_def)

lemma pow2_neg: "k < 0 \<Longrightarrow> (2::rat) powi k = 1 / of_int (2 ^ nat (- k))"
  by (simp add: power_int_def field_simps)

lemma bitlen_pow_bounds:
  assumes "0 < n"
  shows "(2::rat) powi (bitlen n - 1) \<le> of_int n" and "of_int n < (2::rat) powi bitlen n"
proof -
  from bitlen_bounds [OF assms]
  have 1: "2 ^ nat (bitlen n - 1) \<le> n" and 2: "n < 2 ^ nat (bitlen n)" by simp_all
  have pos: "0 < bitlen n" using assms bitlen_nonneg [of n] bitlen_eq_zero_iff [of n] by linarith
  have "(of_int (2 ^ nat (bitlen n - 1)) :: rat) \<le> of_int n" using 1 by (simp only: of_int_le_iff)
  then show "(2::rat) powi (bitlen n - 1) \<le> of_int n" using pos by (simp add: pow2_nat)
  have "(of_int n :: rat) < of_int (2 ^ nat (bitlen n))" using 2 by (simp only: of_int_less_iff)
  then show "of_int n < (2::rat) powi bitlen n" using pos by (simp add: pow2_nat)
qed

lemma binade_test:
  assumes "0 < d"
  shows "(if 0 \<le> k then d * 2 ^ nat k \<le> n else d \<le> n * 2 ^ nat (- k))
         \<longleftrightarrow> (2::rat) powi k \<le> of_int n / of_int d"
proof (cases "0 \<le> k")
  case True
  have "(2::rat) powi k \<le> of_int n / of_int d \<longleftrightarrow> of_int (2 ^ nat k) * of_int d \<le> (of_int n :: rat)"
    using assms True by (simp add: pow2_nat pos_le_divide_eq)
  also have "\<dots> \<longleftrightarrow> (of_int (d * 2 ^ nat k) :: rat) \<le> of_int n"
    by (simp add: mult.commute)
  also have "\<dots> \<longleftrightarrow> d * 2 ^ nat k \<le> n" by (simp only: of_int_le_iff)
  finally show ?thesis using True by simp
next
  case False
  then have k: "k < 0" by simp
  have "(2::rat) powi k \<le> of_int n / of_int d \<longleftrightarrow> of_int d \<le> (of_int n :: rat) * of_int (2 ^ nat (- k))"
    using assms by (simp add: pow2_neg [OF k] field_simps)
  also have "\<dots> \<longleftrightarrow> (of_int d :: rat) \<le> of_int (n * 2 ^ nat (- k))" by simp
  also have "\<dots> \<longleftrightarrow> d \<le> n * 2 ^ nat (- k)" by (simp only: of_int_le_iff)
  finally show ?thesis using False by simp
qed

lemma binade_bounds:
  assumes "0 < n" and "0 < d"
  shows "(2::rat) powi (binade n d) \<le> of_int n / of_int d"
    and "of_int n / of_int d < (2::rat) powi (binade n d + 1)"
proof -
  let ?k = "bitlen n - bitlen d"
  let ?x = "of_int n / of_int d :: rat"
  have dpos: "(0::rat) < of_int d" using assms by simp
  have lo: "(2::rat) powi (?k - 1) \<le> ?x"
  proof -
    have "(2::rat) powi (?k - 1) * of_int d \<le> 2 powi (?k - 1) * 2 powi bitlen d"
      using bitlen_pow_bounds(2) [OF assms(2)] by (intro mult_left_mono) simp_all
    also have "\<dots> = 2 powi (bitlen n - 1)"
      by (simp flip: power_int_add)
    also have "\<dots> \<le> of_int n" by (rule bitlen_pow_bounds(1) [OF assms(1)])
    finally show ?thesis using dpos by (simp add: pos_le_divide_eq)
  qed
  have hi: "?x < (2::rat) powi (?k + 1)"
  proof -
    have "(of_int n :: rat) < 2 powi bitlen n" by (rule bitlen_pow_bounds(2) [OF assms(1)])
    also have "\<dots> = 2 powi (?k + 1) * 2 powi (bitlen d - 1)"
      by (simp flip: power_int_add)
    also have "\<dots> \<le> 2 powi (?k + 1) * of_int d"
      using bitlen_pow_bounds(1) [OF assms(2)] by (intro mult_left_mono) simp_all
    finally show ?thesis using dpos by (simp add: pos_divide_less_eq)
  qed
  have t: "(if 0 \<le> ?k then d * 2 ^ nat ?k \<le> n else d \<le> n * 2 ^ nat (- ?k)) \<longleftrightarrow> (2::rat) powi ?k \<le> ?x"
    by (rule binade_test [OF assms(2)])
  show "(2::rat) powi (binade n d) \<le> ?x"
    unfolding binade_def binade_adj_def using t lo by (simp del: power_int_add_numeral power_int_add_numeral2)
  show "?x < (2::rat) powi (binade n d + 1)"
    unfolding binade_def binade_adj_def using t hi by (auto simp: not_le)
qed

lemma rne_div_le:
  assumes "0 < d" and "n \<le> k * d"
  shows "rne_div n d \<le> k"
proof -
  have n: "n = (n div d) * d + n mod d" by simp
  have r: "0 \<le> n mod d" "n mod d < d" using assms(1) by simp_all
  have f: "n div d \<le> k"
    using zdiv_mono1 [OF assms(2) assms(1)] assms(1) by simp
  have "n div d + 1 \<le> k" if "d \<le> 2 * (n mod d)"
  proof (rule ccontr)
    assume "\<not> n div d + 1 \<le> k"
    with f have "n div d = k" by simp
    with n assms(2) have "n mod d \<le> 0" by simp
    with that assms(1) show False by simp
  qed
  with f show ?thesis by (auto simp: rne_div_def rne_pick_def)
qed

lemma rne_div_ge:
  assumes "0 < d" and "k * d \<le> n"
  shows "k \<le> rne_div n d"
proof -
  have "k \<le> n div d"
    using zdiv_mono1 [OF assms(2) assms(1)] assms(1) by simp
  then show ?thesis by (auto simp: rne_div_def rne_pick_def)
qed

lemma rne_scaled_le:
  assumes "0 < d" and "(of_int n :: rat) / of_int d \<le> of_int k * 2 powi q"
  shows "rne_scaled n d q \<le> k"
proof (cases "0 \<le> q")
  case True
  have "(of_int n :: rat) \<le> of_int k * of_int (2 ^ nat q) * of_int d"
    using assms True by (simp add: pow2_nat pos_divide_le_eq)
  also have "\<dots> = of_int (k * (d * 2 ^ nat q))" by simp
  finally have "n \<le> k * (d * 2 ^ nat q)" by (simp only: of_int_le_iff)
  moreover have "0 < d * 2 ^ nat q" using assms(1) by simp
  ultimately show ?thesis using True by (simp add: rne_scaled_def rne_div_le)
next
  case False
  then have q: "q < 0" by simp
  have "(of_int n :: rat) * of_int (2 ^ nat (- q)) \<le> of_int k * of_int d"
    using assms by (simp add: pow2_neg [OF q] field_simps)
  then have "(of_int (n * 2 ^ nat (- q)) :: rat) \<le> of_int (k * d)" by simp
  then have "n * 2 ^ nat (- q) \<le> k * d" by (simp only: of_int_le_iff)
  then show ?thesis using False assms(1) by (simp add: rne_scaled_def rne_div_le)
qed

lemma rne_scaled_ge:
  assumes "0 < d" and "of_int k * 2 powi q \<le> (of_int n :: rat) / of_int d"
  shows "k \<le> rne_scaled n d q"
proof (cases "0 \<le> q")
  case True
  have "of_int k * of_int (2 ^ nat q) * of_int d \<le> (of_int n :: rat)"
    using assms True by (simp add: pow2_nat pos_le_divide_eq)
  moreover have "of_int k * of_int (2 ^ nat q) * of_int d = (of_int (k * (d * 2 ^ nat q)) :: rat)" by simp
  ultimately have "(of_int (k * (d * 2 ^ nat q)) :: rat) \<le> of_int n" by (simp only:)
  then have "k * (d * 2 ^ nat q) \<le> n" by (simp only: of_int_le_iff)
  moreover have "0 < d * 2 ^ nat q" using assms(1) by simp
  ultimately show ?thesis using True by (simp add: rne_scaled_def rne_div_ge)
next
  case False
  then have q: "q < 0" by simp
  have "of_int k * of_int d \<le> (of_int n :: rat) * of_int (2 ^ nat (- q))"
    using assms by (simp add: pow2_neg [OF q] field_simps)
  then have "(of_int (k * d) :: rat) \<le> of_int (n * 2 ^ nat (- q))" by simp
  then have "k * d \<le> n * 2 ^ nat (- q)" by (simp only: of_int_le_iff)
  then show ?thesis using False assms(1) by (simp add: rne_scaled_def rne_div_ge)
qed

text \<open>The shape of a rounded positive fraction.\<close>

lemma round_frac_pos:
  assumes "0 < n" and "0 < d"
  obtains m q where
    "round_frac n d = normalise_pack False m q"
    "m = rne_scaled n d q"
    "0 \<le> m" "m \<le> 2 ^ 53" "- 1074 \<le> q"
    "(of_int n :: rat) / of_int d < 2 powi (q + 53)"
    "- 1074 < q \<longrightarrow> (2::rat) powi (q + 52) \<le> of_int n / of_int d"
proof -
  define b where "b = binade n d"
  define q where "q = max b (- 1022) - 52"
  define m where "m = rne_scaled n d q"
  let ?x = "(of_int n :: rat) / of_int d"
  have xpos: "0 < ?x" using assms by simp
  have bl: "(2::rat) powi b \<le> ?x" and bu: "?x < (2::rat) powi (b + 1)"
    unfolding b_def by (rule binade_bounds [OF assms])+
  have q1: "- 1074 \<le> q" and q2: "b - 52 \<le> q" by (simp_all add: q_def)
  have "(2::rat) powi (b + 1) \<le> 2 powi (q + 53)"
    by (rule power_int_increasing) (use q2 in simp_all)
  with bu have xu: "?x < 2 powi (q + 53)" by simp
  have xl: "(2::rat) powi (q + 52) \<le> ?x" if "- 1074 < q"
  proof -
    from that have "q = b - 52" by (simp add: q_def max_def split: if_splits)
    then show ?thesis using bl by simp
  qed
  have m0: "0 \<le> m"
    unfolding m_def using xpos by (intro rne_scaled_ge [OF assms(2)]) simp
  have "?x \<le> of_int (2 ^ 53) * 2 powi q"
  proof -
    have "(2::rat) powi (q + 53) = 2 powi q * 2 powi 53" by (rule power_int_add) simp
    then show ?thesis using xu by (simp add: mult.commute)
  qed
  then have m1: "m \<le> 2 ^ 53"
    unfolding m_def by (intro rne_scaled_le [OF assms(2)])
  have r: "round_frac n d = normalise_pack False m q"
    using assms(1) by (simp add: round_frac_def round_at_def m_def q_def b_def)
  from xl have xl': "- 1074 < q \<longrightarrow> (2::rat) powi (q + 52) \<le> ?x" by blast
  show thesis
    by (rule that [OF r m_def m0 m1 q1 xu xl'])
qed

lemma normalise_pack_pos:
  assumes "0 \<le> m" and "m \<le> 2 ^ 53" and "- 1074 \<le> q"
  shows "normalise_pack False m q = PInf \<and> (970 < q \<and> m = 2 ^ 53 \<or> 971 < q)
       \<or> normalise_pack False m q = Finite 0 0 \<and> m = 0 \<and> q \<le> 971
       \<or> (\<exists>m' q'. normalise_pack False m q = Finite m' q' \<and> 0 < m'
             \<and> is_float64 (Finite m' q')
             \<and> (of_int m' :: rat) * 2 powi q' = of_int m * 2 powi q)"
proof (cases "m = 2 ^ 53")
  case True
  have "(of_int (2 ^ 52) :: rat) * 2 powi (q + 1) = of_int (2 ^ 53) * 2 powi q"
    by (simp add: power_int_add)
  then show ?thesis using True assms(3)
    by (auto simp: normalise_pack_def pack_def inf_of_def zero_of_def)
next
  case False
  then have "\<bar>m\<bar> < 2 ^ 53" using assms by simp
  then show ?thesis using False assms
    by (auto simp: normalise_pack_def pack_def inf_of_def zero_of_def)
qed

lemma pow2_less_cancel: "(2::rat) powi a < 2 powi b \<Longrightarrow> a < b"
  using power_int_increasing [of b a "2::rat"] by (cases "a < b") simp_all

lemma scale_to_quantum:
  assumes "q \<le> E"
  shows "(of_int (M * 2 ^ nat (E - q)) :: rat) * 2 powi q = of_int M * 2 powi E"
proof -
  have "(2::rat) powi E = 2 powi (E - q) * 2 powi q"
    by (simp flip: power_int_add)
  also have "(2::rat) powi (E - q) = of_int (2 ^ nat (E - q))"
    using assms by (simp add: pow2_nat)
  finally show ?thesis by simp
qed

lemma mant_bound:
  assumes "M < 2 ^ 53"
  shows "(of_int M :: rat) * 2 powi E < 2 powi (E + 53)"
proof -
  have "(of_int M :: rat) < of_int (2 ^ 53)" using assms by (simp only: of_int_less_iff)
  then have "(of_int M :: rat) * 2 powi E < of_int (2 ^ 53) * 2 powi E"
    by (intro mult_strict_right_mono) simp_all
  also have "\<dots> = 2 powi (E + 53)" by (simp add: power_int_add)
  finally show ?thesis .
qed

text \<open>Rounding does not pass a binary64 number above the exact value.\<close>

lemma round_frac_upper:
  assumes "0 < n" and "0 < d"
    and le: "(of_int n :: rat) / of_int d \<le> of_int M * 2 powi E"
    and M: "M < 2 ^ 53" and E: "- 1074 \<le> E" "E \<le> 971"
  obtains m e where "round_frac n d = Finite m e" "0 \<le> m" "is_float64 (Finite m e)"
    "(of_int m :: rat) * 2 powi e \<le> of_int M * 2 powi E" "m = 0 \<longrightarrow> e = 0"
proof -
  let ?x = "(of_int n :: rat) / of_int d"
  obtain m q where r: "round_frac n d = normalise_pack False m q"
    and m: "m = rne_scaled n d q" "0 \<le> m" "m \<le> 2 ^ 53" and q: "- 1074 \<le> q"
    and xu: "?x < 2 powi (q + 53)"
    and xl: "- 1074 < q \<longrightarrow> (2::rat) powi (q + 52) \<le> ?x"
    by (rule round_frac_pos [OF assms(1,2)])
  have qE: "q \<le> E"
  proof (rule ccontr)
    assume "\<not> q \<le> E"
    then have gt: "E < q" by simp
    with E have "- 1074 < q" by simp
    from xl this le mant_bound [OF M, of E]
    have "(2::rat) powi (q + 52) < 2 powi (E + 53)" by simp
    then have "q + 52 < E + 53" by (rule pow2_less_cancel)
    with gt show False by simp
  qed
  have mK: "m \<le> M * 2 ^ nat (E - q)"
    unfolding m(1) using le by (intro rne_scaled_le [OF assms(2)]) (simp only: scale_to_quantum [OF qE])
  then have "(of_int m :: rat) \<le> of_int (M * 2 ^ nat (E - q))" by (simp only: of_int_le_iff)
  then have "(of_int m :: rat) * 2 powi q \<le> of_int (M * 2 ^ nat (E - q)) * 2 powi q"
    by (intro mult_right_mono) simp_all
  then have v: "(of_int m :: rat) * 2 powi q \<le> of_int M * 2 powi E"
    by (simp only: scale_to_quantum [OF qE])
  have noinf: "\<not> (970 < q \<and> m = 2 ^ 53 \<or> 971 < q)"
  proof
    assume "970 < q \<and> m = 2 ^ 53 \<or> 971 < q"
    with qE E have "m = 2 ^ 53" and "q = 971" and "E = 971" by auto
    with v mant_bound [OF M, of E] show False by (simp add: power_int_add)
  qed
  have Mpos: "(0::rat) \<le> of_int M * 2 powi E"
    using le assms(1,2) by (meson divide_nonneg_pos less_imp_le of_int_0_le_iff of_int_pos order_trans)
  from normalise_pack_pos [OF m(2,3) q] noinf
  consider "normalise_pack False m q = Finite 0 0"
    | m' q' where "normalise_pack False m q = Finite m' q'" "0 < m'" "is_float64 (Finite m' q')"
        "(of_int m' :: rat) * 2 powi q' = of_int m * 2 powi q"
    by blast
  then show thesis
  proof cases
    case 1
    show thesis by (rule that [of 0 0]) (use 1 r Mpos in simp_all)
  next
    case 2
    show thesis by (rule that [of m' q']) (use 2 r v in simp_all)
  qed
qed

text \<open>Rounding does not pass a binary64 number below the exact value.\<close>

lemma round_frac_lower:
  assumes "0 < n" and "0 < d"
    and le: "of_int M * 2 powi E \<le> (of_int n :: rat) / of_int d"
    and M: "0 < M" "M < 2 ^ 53" and E: "- 1074 \<le> E"
  shows "round_frac n d = PInf
       \<or> (\<exists>m e. round_frac n d = Finite m e \<and> 0 < m \<and> is_float64 (Finite m e)
             \<and> of_int M * 2 powi E \<le> (of_int m :: rat) * 2 powi e)"
proof -
  let ?x = "(of_int n :: rat) / of_int d"
  obtain m q where r: "round_frac n d = normalise_pack False m q"
    and m: "m = rne_scaled n d q" "0 \<le> m" "m \<le> 2 ^ 53" and q: "- 1074 \<le> q"
    and xu: "?x < 2 powi (q + 53)"
    and xl: "- 1074 < q \<longrightarrow> (2::rat) powi (q + 52) \<le> ?x"
    by (rule round_frac_pos [OF assms(1,2)])
  have v: "of_int M * 2 powi E \<le> (of_int m :: rat) * 2 powi q"
  proof (cases "q \<le> E")
    case True
    have "M * 2 ^ nat (E - q) \<le> m"
      unfolding m(1) using le by (intro rne_scaled_ge [OF assms(2)]) (simp only: scale_to_quantum [OF True])
    then have "(of_int (M * 2 ^ nat (E - q)) :: rat) \<le> of_int m" by (simp only: of_int_le_iff)
    then have "(of_int (M * 2 ^ nat (E - q)) :: rat) * 2 powi q \<le> of_int m * 2 powi q"
      by (intro mult_right_mono) simp_all
    then show ?thesis by (simp only: scale_to_quantum [OF True])
  next
    case False
    then have gt: "E + 53 \<le> q + 52" by simp
    from False E have "- 1074 < q" by simp
    from xl this have "of_int (2 ^ 52) * 2 powi q \<le> ?x" by (simp add: power_int_add)
    then have "2 ^ 52 \<le> m" unfolding m(1) by (intro rne_scaled_ge [OF assms(2)])
    then have "(of_int (2 ^ 52) :: rat) \<le> of_int m" by (simp only: of_int_le_iff)
    then have d: "(of_int (2 ^ 52) :: rat) * 2 powi q \<le> of_int m * 2 powi q"
      by (intro mult_right_mono) simp_all
    have "of_int M * 2 powi E \<le> (2::rat) powi (E + 53)"
      using mant_bound [OF M(2), of E] by (rule less_imp_le)
    also have "\<dots> \<le> 2 powi (q + 52)"
      by (rule power_int_increasing) (use gt in simp_all)
    also have "\<dots> = (of_int (2 ^ 52) :: rat) * 2 powi q" by (simp add: power_int_add)
    also note d
    finally show ?thesis .
  qed
  have "(0::rat) < of_int M * 2 powi E" using M(1) by simp
  with v have mpos: "(0::rat) < of_int m * 2 powi q" by simp
  then have m0: "m \<noteq> 0" by auto
  from normalise_pack_pos [OF m(2,3) q] m0 r show ?thesis using v by auto
qed

lemma round_frac_pos_cases:
  assumes "0 < n" and "0 < d"
  shows "round_frac n d = PInf \<or> round_frac n d = Finite 0 0
       \<or> (\<exists>m e. round_frac n d = Finite m e \<and> 0 < m \<and> is_float64 (Finite m e))"
proof -
  obtain m q where r: "round_frac n d = normalise_pack False m q"
    and m: "0 \<le> m" "m \<le> 2 ^ 53" and q: "- 1074 \<le> q"
    by (rule round_frac_pos [OF assms(1,2)])
  from normalise_pack_pos [OF m q] r show ?thesis by auto
qed

lemma round_scaled_frac:
  assumes "0 < d"
  obtains n' d' where "round_scaled n d k = round_frac n' d'" "0 < d'"
    "(0 < n') = (0 < n)" "(n' = 0) = (n = 0)"
    "(of_int n' :: rat) / of_int d' = of_int n / of_int d * 2 powi k"
proof (cases "0 \<le> k")
  case True
  show thesis
  proof (rule that [of "n * 2 ^ nat k" d])
    show "round_scaled n d k = round_frac (n * 2 ^ nat k) d" using True by (simp add: round_scaled_def)
    show "0 < d" by fact
    show "(0 < n * 2 ^ nat k) = (0 < n)" by (simp add: zero_less_mult_iff)
    show "(n * 2 ^ nat k = 0) = (n = 0)" by simp
    show "(of_int (n * 2 ^ nat k) :: rat) / of_int d = of_int n / of_int d * 2 powi k"
      using True by (simp add: pow2_nat)
  qed
next
  case False
  then have k: "k < 0" by simp
  show thesis
  proof (rule that [of n "d * 2 ^ nat (- k)"])
    show "round_scaled n d k = round_frac n (d * 2 ^ nat (- k))" using False by (simp add: round_scaled_def)
    show "0 < d * 2 ^ nat (- k)" using assms by simp
    show "(0 < n) = (0 < n)" ..
    show "(n = 0) = (n = 0)" ..
    show "(of_int n :: rat) / of_int (d * 2 ^ nat (- k)) = of_int n / of_int d * 2 powi k"
      by (simp add: pow2_neg [OF k])
  qed
qed

lemma round_frac_zero: "round_frac 0 d = Finite 0 0"
  by (simp add: round_frac_def)

lemma round_scaled_zero: "round_scaled 0 d k = Finite 0 0"
  by (simp add: round_scaled_def round_frac_zero)

lemma round_scaled_pos_cases:
  assumes "0 < n" and "0 < d"
  shows "nonneg64 (round_scaled n d k) \<and> round_scaled n d k \<noteq> Finite 0 e' \<or> round_scaled n d k = Finite 0 0"
proof -
  obtain n' d' where r: "round_scaled n d k = round_frac n' d'" and d': "0 < d'"
    and n': "(0 < n') = (0 < n)"
    by (rule round_scaled_frac [OF assms(2)])
  from n' assms(1) have "0 < n'" by simp
  from round_frac_pos_cases [OF this d'] show ?thesis unfolding r by auto
qed

lemma round_scaled_nonneg:
  assumes "0 \<le> n" and "0 < d"
  shows "nonneg64 (round_scaled n d k)"
proof (cases "n = 0")
  case True
  then show ?thesis by (simp add: round_scaled_zero)
next
  case False
  with assms(1) have "0 < n" by simp
  from round_scaled_pos_cases [OF this assms(2), of k 0] show ?thesis by auto
qed

lemma round_scaled_upper:
  assumes "0 \<le> n" and "0 < d"
    and le: "(of_int n :: rat) / of_int d * 2 powi k \<le> of_int M * 2 powi E"
    and M: "M < 2 ^ 53" and E: "- 1074 \<le> E" "E \<le> 971"
  obtains m e where "round_scaled n d k = Finite m e" "nonneg64 (Finite m e)"
    "(of_int m :: rat) * 2 powi e \<le> of_int M * 2 powi E"
proof (cases "n = 0")
  case True
  have "(0::rat) \<le> of_int M * 2 powi E" using le True by simp
  then show thesis using True by (intro that [of 0 0]) (simp_all add: round_scaled_zero)
next
  case False
  with assms(1) have npos: "0 < n" by simp
  obtain n' d' where r: "round_scaled n d k = round_frac n' d'" and d': "0 < d'"
    and n': "(0 < n') = (0 < n)"
    and v: "(of_int n' :: rat) / of_int d' = of_int n / of_int d * 2 powi k"
    by (rule round_scaled_frac [OF assms(2)])
  from n' npos have n'pos: "0 < n'" by simp
  from le v have le': "(of_int n' :: rat) / of_int d' \<le> of_int M * 2 powi E" by simp
  obtain m e where 1: "round_frac n' d' = Finite m e" and 2: "0 \<le> m" and 3: "is_float64 (Finite m e)"
    and 4: "(of_int m :: rat) * 2 powi e \<le> of_int M * 2 powi E" and 5: "m = 0 \<longrightarrow> e = 0"
    by (rule round_frac_upper [OF n'pos d' le' M E])
  show thesis
  proof (rule that [of m e])
    show "round_scaled n d k = Finite m e" using r 1 by simp
    show "nonneg64 (Finite m e)" using 2 3 5 by (cases "m = 0") simp_all
    show "(of_int m :: rat) * 2 powi e \<le> of_int M * 2 powi E" by fact
  qed
qed

lemma round_scaled_lower:
  assumes "0 < n" and "0 < d"
    and le: "of_int M * 2 powi E \<le> (of_int n :: rat) / of_int d * 2 powi k"
    and M: "0 < M" "M < 2 ^ 53" and E: "- 1074 \<le> E"
  shows "round_scaled n d k = PInf
       \<or> (\<exists>m e. round_scaled n d k = Finite m e \<and> 0 < m \<and> is_float64 (Finite m e)
             \<and> of_int M * 2 powi E \<le> (of_int m :: rat) * 2 powi e)"
proof -
  obtain n' d' where r: "round_scaled n d k = round_frac n' d'" and d': "0 < d'"
    and n': "(0 < n') = (0 < n)"
    and v: "(of_int n' :: rat) / of_int d' = of_int n / of_int d * 2 powi k"
    by (rule round_scaled_frac [OF assms(2)])
  from n' assms(1) have n'pos: "0 < n'" by simp
  from le v have le': "of_int M * 2 powi E \<le> (of_int n' :: rat) / of_int d'" by simp
  from round_frac_lower [OF n'pos d' le' M E] show ?thesis unfolding r .
qed

text \<open>The comparison of two finite values compares the numbers they denote.\<close>

lemma f64_lt_Finite:
  "f64_lt (Finite m e) (Finite m' e') \<longleftrightarrow> (of_int m :: rat) * 2 powi e < of_int m' * 2 powi e'"
proof -
  define c where "c = min e e'"
  have c: "c \<le> e" "c \<le> e'" by (simp_all add: c_def)
  have "m * 2 ^ nat (e - c) < m' * 2 ^ nat (e' - c)
        \<longleftrightarrow> (of_int (m * 2 ^ nat (e - c)) :: rat) < of_int (m' * 2 ^ nat (e' - c))"
    by (simp only: of_int_less_iff)
  also have "\<dots> \<longleftrightarrow> (of_int (m * 2 ^ nat (e - c)) :: rat) * 2 powi c < of_int (m' * 2 ^ nat (e' - c)) * 2 powi c"
    by (rule mult_less_cancel_right_pos [symmetric]) simp
  also have "\<dots> \<longleftrightarrow> (of_int m :: rat) * 2 powi e < of_int m' * 2 powi e'"
    by (simp only: scale_to_quantum [OF c(1)] scale_to_quantum [OF c(2)])
  finally show ?thesis by (simp add: f64_lt_def lt_at_def c_def)
qed

text \<open>The difference of two finite values rounds their exact difference.\<close>

lemma f64_sub_Finite:
  assumes "m \<noteq> 0 \<or> m' \<noteq> 0"
  obtains n c where "f64_sub (Finite m e) (Finite m' e') = round_scaled n 1 c"
    "(of_int n :: rat) * 2 powi c = of_int m * 2 powi e - of_int m' * 2 powi e'"
proof -
  define c where "c = min e e'"
  define n where "n = m * 2 ^ nat (e - c) - m' * 2 ^ nat (e' - c)"
  have c: "c \<le> e" "c \<le> e'" by (simp_all add: c_def)
  have "(of_int n :: rat) * 2 powi c
        = of_int (m * 2 ^ nat (e - c)) * 2 powi c - of_int (m' * 2 ^ nat (e' - c)) * 2 powi c"
    by (simp add: n_def algebra_simps)
  also have "\<dots> = of_int m * 2 powi e - of_int m' * 2 powi e'"
    by (simp only: scale_to_quantum [OF c(1)] scale_to_quantum [OF c(2)])
  finally have v: "(of_int n :: rat) * 2 powi c = of_int m * 2 powi e - of_int m' * 2 powi e'" .
  have "f64_sub (Finite m e) (Finite m' e') = round_scaled n 1 c"
    using assms by (auto simp: f64_sub_def sub_at_def n_def c_def)
  then show thesis using v by (rule that)
qed

section \<open>Rounding commutes with negation\<close>

lemma rne_div_minus:
  assumes "0 < d"
  shows "rne_div (- n) d = - rne_div n d"
proof (cases "n mod d = 0")
  case True
  then have "(- n) mod d = 0" by (simp add: zmod_zminus1_eq_if)
  moreover have "(- n) div d = - (n div d)" using True by (intro dvd_neg_div) (simp add: mod_eq_0_iff_dvd)
  ultimately show ?thesis using True assms by (simp add: rne_div_def rne_pick_def)
next
  case False
  then have m: "(- n) mod d = d - n mod d" by (simp add: zmod_zminus1_eq_if)
  have q: "(- n) div d = - (n div d) - 1" using False assms by (simp add: zdiv_zminus1_eq_if)
  have r: "0 < n mod d" "n mod d < d"
    using pos_mod_sign [OF assms, of n] pos_mod_bound [OF assms, of n] False by linarith+
  show ?thesis unfolding rne_div_def rne_pick_def m q using r by auto
qed

lemma rne_scaled_minus:
  assumes "0 < d"
  shows "rne_scaled (- n) d q = - rne_scaled n d q"
  using assms by (simp add: rne_scaled_def rne_div_minus)

lemma normalise_pack_minus:
  assumes "0 \<le> m"
  shows "normalise_pack True (- m) q = f64_neg (normalise_pack False m q)"
proof (cases "m = 2 ^ 53")
  case True
  then show ?thesis by (simp add: normalise_pack_def pack_def inf_of_def zero_of_def)
next
  case False
  then show ?thesis using assms by (auto simp: normalise_pack_def pack_def inf_of_def zero_of_def)
qed

lemma round_frac_minus:
  assumes "0 < n" and "0 < d"
  shows "round_frac (- n) d = f64_neg (round_frac n d)"
proof -
  define q where "q = max (binade n d) (- 1022) - 52"
  have "0 \<le> rne_scaled n d q"
    using assms by (intro rne_scaled_ge [OF assms(2)]) simp
  then show ?thesis
    using assms by (simp add: round_frac_def round_at_def rne_scaled_minus normalise_pack_minus q_def)
qed

lemma round_scaled_minus:
  assumes "0 < n" and "0 < d"
  shows "round_scaled (- n) d k = f64_neg (round_scaled n d k)"
  using assms by (simp add: round_scaled_def round_frac_minus)

section \<open>Conversions, quotients and differences in Allow\<close>

lemma f64_of_int64_zero: "float64_of_int64 0 = Finite 0 0"
  by (simp add: float64_of_int64_def round_frac_zero)

lemma f64_of_int64_pos:
  assumes "0 < n" and "n \<le> 2 ^ 63"
  obtains m e where "float64_of_int64 n = Finite m e" "0 < m" "is_float64 (Finite m e)"
    "(of_int m :: rat) * 2 powi e \<le> 2 ^ 63" "1 \<le> (of_int m :: rat) * 2 powi e"
proof -
  have "(of_int n :: rat) \<le> of_int (2 ^ 63)" using assms(2) by (simp only: of_int_le_iff)
  then have le: "(of_int n :: rat) / of_int 1 \<le> of_int (2 ^ 52) * 2 powi 11" by simp
  obtain m e where 1: "round_frac n 1 = Finite m e" and 2: "0 \<le> m" "is_float64 (Finite m e)"
    and 3: "(of_int m :: rat) * 2 powi e \<le> of_int (2 ^ 52) * 2 powi 11"
    by (rule round_frac_upper [OF assms(1) _ le]; simp)
  have "(of_int 1 :: rat) \<le> of_int n" using assms(1) by (simp only: of_int_le_iff)
  then have ge: "of_int 1 * 2 powi 0 \<le> (of_int n :: rat) / of_int 1" by simp
  from round_frac_lower [OF assms(1) _ ge] 1
  have 4: "0 < m" and 5: "of_int 1 * 2 powi 0 \<le> (of_int m :: rat) * 2 powi e" by simp_all
  show thesis
    by (rule that [of m e]) (use 1 2 3 4 5 in \<open>simp_all add: float64_of_int64_def\<close>)
qed

lemma f64_of_int64_neg:
  assumes "n < 0" and "- (2 ^ 63) \<le> n"
  obtains m e where "float64_of_int64 n = Finite m e" "m < 0" "is_float64 (Finite m e)"
proof -
  have p: "0 < - n" "- n \<le> 2 ^ 63" using assms by simp_all
  obtain m e where 1: "float64_of_int64 (- n) = Finite m e" and 2: "0 < m" "is_float64 (Finite m e)"
    by (rule f64_of_int64_pos [OF p])
  have "float64_of_int64 n = f64_neg (float64_of_int64 (- n))"
    using round_frac_minus [OF p(1), of 1] by (simp add: float64_of_int64_def)
  then have "float64_of_int64 n = Finite (- m) e" using 1 2 by simp
  then show thesis using 2 by (intro that [of "- m" e]) simp_all
qed

text \<open>Counts up to \<open>2 ^ 53\<close> convert exactly.\<close>

lemma f64_of_int64_exact:
  assumes "0 < n" and "n < 2 ^ 53"
  obtains m e where "float64_of_int64 n = Finite m e" "0 < m" "is_float64 (Finite m e)"
    "(of_int m :: rat) * 2 powi e = of_int n"
proof -
  have le: "(of_int n :: rat) / of_int 1 \<le> of_int n * 2 powi 0" by simp
  obtain m e where 1: "round_frac n 1 = Finite m e" and 2: "0 \<le> m" "is_float64 (Finite m e)"
    and 3: "(of_int m :: rat) * 2 powi e \<le> of_int n * 2 powi 0"
    by (rule round_frac_upper [OF assms(1) _ le assms(2)]; simp)
  have ge: "of_int n * 2 powi 0 \<le> (of_int n :: rat) / of_int 1" by simp
  from round_frac_lower [OF assms(1) _ ge assms(1,2)] 1
  have 4: "0 < m" and 5: "of_int n * 2 powi 0 \<le> (of_int m :: rat) * 2 powi e" by simp_all
  show thesis
    by (rule that [of m e]) (use 1 2 3 4 5 in \<open>simp_all add: float64_of_int64_def\<close>)
qed

text \<open>The quotient of a finite value by a positive one.\<close>

lemma f64_div_nonneg:
  assumes "nonneg64 x" and "x \<noteq> PInf" and "0 < md"
  shows "nonneg64 (f64_div x (Finite md ed))"
proof -
  from assms(1,2) obtain m e where x: "x = Finite m e" and m: "0 \<le> m" by (cases x) auto
  show ?thesis
  proof (cases "m = 0")
    case True
    then show ?thesis using x assms(3) by (simp add: f64_div_def zero_of_def)
  next
    case False
    then have "f64_div x (Finite md ed) = round_scaled m md (e - ed)"
      using x assms(3) by (simp add: f64_div_def)
    then show ?thesis using round_scaled_nonneg [of m md "e - ed"] m assms(3) by simp
  qed
qed

lemma f64_max_zero_nonneg: "nonneg64 y \<Longrightarrow> f64_max (Finite 0 0) y = y"
  by (cases y) (auto simp: f64_max_def f64_lt_def lt_at_def mult_less_0_iff)

lemma positive_cases:
  assumes "f64_lt (Finite 0 0) x"
  shows "x = PInf \<or> (\<exists>m e. x = Finite m e \<and> 0 < m)"
  using assms by (cases x) (auto simp: f64_lt_def lt_at_def zero_less_mult_iff)

lemma f64_of_int64_cases:
  assumes "- (2 ^ 63) \<le> n" and "n \<le> 2 ^ 63"
  obtains m e where "float64_of_int64 n = Finite m e" "(0 < m) = (0 < n)" "(m < 0) = (n < 0)"
    "m = 0 \<longrightarrow> e = 0"
proof -
  consider "n = 0" | "0 < n" | "n < 0" by linarith
  then show thesis
  proof cases
    case 1
    then show thesis by (intro that [of 0 0]) (simp_all add: f64_of_int64_zero)
  next
    case 2
    obtain m e where "float64_of_int64 n = Finite m e" "0 < m"
      by (rule f64_of_int64_pos [OF 2 assms(2)])
    then show thesis using 2 by (intro that [of m e]) simp_all
  next
    case 3
    obtain m e where "float64_of_int64 n = Finite m e" "m < 0"
      by (rule f64_of_int64_neg [OF 3 assms(1)])
    then show thesis using 3 by (intro that [of m e]) simp_all
  qed
qed

text \<open>Dividing a finite value by a positive one never gives NaN.\<close>

lemma f64_div_positive_not_nan:
  assumes "f64_lt (Finite 0 0) x"
  shows "\<not> is_nan (f64_div (Finite m e) x)"
proof -
  from positive_cases [OF assms] consider "x = PInf" | mx ex where "x = Finite mx ex" "0 < mx" by blast
  then show ?thesis
  proof cases
    case 1
    then show ?thesis by (simp add: f64_div_def zero_of_def)
  next
    case 2
    consider "m = 0" | "0 < m" | "m < 0" by linarith
    then show ?thesis
    proof cases
      case 1
      then show ?thesis using 2 by (simp add: f64_div_def zero_of_def)
    next
      case 2
      have "f64_div (Finite m e) x = round_scaled m mx (e - ex)"
        using 2 \<open>x = Finite mx ex\<close> \<open>0 < mx\<close> by (simp add: f64_div_def)
      moreover have "nonneg64 (round_scaled m mx (e - ex))"
        using 2 \<open>0 < mx\<close> by (intro round_scaled_nonneg) simp_all
      ultimately show ?thesis by (cases "round_scaled m mx (e - ex)") simp_all
    next
      case 3
      then have p: "0 < - m" by simp
      have "f64_div (Finite m e) x = round_scaled (- (- m)) mx (e - ex)"
        using 3 \<open>x = Finite mx ex\<close> \<open>0 < mx\<close> by (simp add: f64_div_def)
      also have "\<dots> = f64_neg (round_scaled (- m) mx (e - ex))"
        by (rule round_scaled_minus [OF p \<open>0 < mx\<close>])
      finally show ?thesis
        using round_scaled_nonneg [of "- m" mx "e - ex"] p \<open>0 < mx\<close>
        by (cases "round_scaled (- m) mx (e - ex)") (simp_all split: if_splits)
    qed
  qed
qed

text \<open>A difference that the guard lets through is not negative.\<close>

lemma f64_sub_nonneg:
  assumes "0 \<le> mt" and "mt = 0 \<longrightarrow> et = 0" and "\<not> is_nan y" and "\<not> f64_lt (Finite mt et) y"
  shows "nonneg64 (f64_sub (Finite mt et) y)"
proof (cases y)
  case (Finite mi ei)
  show ?thesis
  proof (cases "mt = 0 \<and> mi = 0")
    case True
    then show ?thesis using Finite by (simp add: f64_sub_def zero_of_def)
  next
    case False
    then have nz: "mt \<noteq> 0 \<or> mi \<noteq> 0" by simp
    obtain n c where s: "f64_sub (Finite mt et) (Finite mi ei) = round_scaled n 1 c"
      and v: "(of_int n :: rat) * 2 powi c = of_int mt * 2 powi et - of_int mi * 2 powi ei"
      by (rule f64_sub_Finite [OF nz])
    from assms(4) Finite have "(of_int mi :: rat) * 2 powi ei \<le> of_int mt * 2 powi et"
      by (simp add: f64_lt_Finite not_less)
    with v have nn: "(0::rat) \<le> of_int n * 2 powi c" by simp
    have "0 \<le> n"
    proof (rule ccontr)
      assume "\<not> 0 \<le> n"
      then have "(of_int n :: rat) < 0" by simp
      then have "of_int n * 2 powi c < (0::rat)" by (intro mult_neg_pos) simp_all
      with nn show False by simp
    qed
    then show ?thesis using s Finite by (simp add: round_scaled_nonneg)
  qed
next
  case NegZero
  show ?thesis
  proof (cases "mt = 0")
    case True
    then show ?thesis using NegZero by (simp add: f64_sub_def zero_of_def)
  next
    case False
    with assms(1) have "0 < mt" by simp
    then have "0 \<le> mt * 2 ^ nat (et - min et 0)" by simp
    then show ?thesis using NegZero False
      by (simp add: f64_sub_def sub_at_def round_scaled_nonneg)
  qed
next
  case PInf
  then show ?thesis using assms(4) by (simp add: f64_lt_def)
next
  case NInf
  then show ?thesis by (simp add: f64_sub_def inf_of_def)
next
  case NaN
  then show ?thesis using assms(3) by simp
qed

lemma wrap64_id: "- (2 ^ 63) \<le> x \<Longrightarrow> x < 2 ^ 63 \<Longrightarrow> wrap64 x = x"
  by (simp add: wrap64_def)

lemma unclamped_nonneg:
  assumes x: "f64_lt (Finite 0 0) x"
    and a: "- (2 ^ 63) \<le> accepts" "accepts < 2 ^ 63"
    and t: "0 \<le> tot" "tot < 2 ^ 63 - 1"
    and g: "\<not> f64_lt (float64_of_int64 tot) (f64_div (float64_of_int64 accepts) x)"
  shows "nonneg64 (f64_sub (float64_of_int64 tot) (f64_div (float64_of_int64 accepts) x))"
    and "f64_lt (Finite 0 0) (float64_of_int64 (wrap64 (tot + 1)))"
    and "nonneg64 (unclamped_dr x accepts tot)"
proof -
  obtain ma ea where A: "float64_of_int64 accepts = Finite ma ea"
    by (rule f64_of_int64_cases [of accepts]) (use a in simp_all)
  obtain mt et where T: "float64_of_int64 tot = Finite mt et" and mt: "(0 < mt) = (0 < tot)"
    "(mt < 0) = (tot < 0)" "mt = 0 \<longrightarrow> et = 0"
    by (rule f64_of_int64_cases [of tot]) (use t in simp_all)
  have mt0: "0 \<le> mt" using mt t by simp
  have w: "wrap64 (tot + 1) = tot + 1" using t by (intro wrap64_id) simp_all
  obtain md ed where D: "float64_of_int64 (tot + 1) = Finite md ed" and md: "0 < md"
    by (rule f64_of_int64_pos [of "tot + 1"]) (use t in simp_all)
  have nn: "\<not> is_nan (f64_div (float64_of_int64 accepts) x)"
    unfolding A by (rule f64_div_positive_not_nan [OF x])
  show N: "nonneg64 (f64_sub (float64_of_int64 tot) (f64_div (float64_of_int64 accepts) x))"
    using g unfolding T by (intro f64_sub_nonneg mt0 mt(3) nn)
  show "f64_lt (Finite 0 0) (float64_of_int64 (wrap64 (tot + 1)))"
    using md by (simp add: w D f64_lt_Finite)
  let ?N = "f64_sub (float64_of_int64 tot) (f64_div (float64_of_int64 accepts) x)"
  show "nonneg64 (unclamped_dr x accepts tot)"
  proof (cases "?N = PInf")
    case True
    then show ?thesis using md by (simp add: unclamped_dr_def w D f64_div_def inf_of_def)
  next
    case False
    from f64_div_nonneg [OF N False md, of ed] show ?thesis by (simp add: unclamped_dr_def w D)
  qed
qed

lemma isr_New_last: "isr (New (opts @ [WithInspirationSuccessRate x])) = x"
  by (simp add: New_def WithInspirationSuccessRate_def Let_def)

section \<open>Bounds on the drop probability\<close>

lemma f64_of_int64_exact_le:
  assumes "0 < n" and "n \<le> 2 ^ 53"
  obtains m e where "float64_of_int64 n = Finite m e" "0 < m" "is_float64 (Finite m e)"
    "(of_int m :: rat) * 2 powi e = of_int n"
proof (cases "n = 2 ^ 53")
  case True
  have "float64_of_int64 (2 ^ 53) = Finite (2 ^ 52) 1" by (simp add: f64_eval)
  then show thesis using True by (intro that [of "2 ^ 52" 1]) simp_all
next
  case False
  with assms(2) have "n < 2 ^ 53" by simp
  from f64_of_int64_exact [OF assms(1) this] that show thesis by blast
qed

lemma f64_div_Finite_pos:
  "0 < m \<Longrightarrow> 0 < md \<Longrightarrow> f64_div (Finite m e) (Finite md ed) = round_scaled m md (e - ed)"
  by (simp add: f64_div_def)

lemma scaled_value:
  "(of_int m :: rat) / of_int md * 2 powi (e - ed) = (of_int m * 2 powi e) / (of_int md * 2 powi ed)"
  by (simp add: power_int_diff)

lemma f64_div_nonneg_positive:
  assumes "nonneg64 (Finite ma ea)" and "f64_lt (Finite 0 0) x"
  shows "nonneg64 (f64_div (Finite ma ea) x)"
proof -
  from positive_cases [OF assms(2)] consider "x = PInf" | mx ex where "x = Finite mx ex" "0 < mx" by blast
  then show ?thesis
  proof cases
    case 1
    then show ?thesis using assms(1) by (auto simp: f64_div_def zero_of_def)
  next
    case 2
    then show ?thesis using f64_div_nonneg [OF assms(1) _ 2(2), of ex] by simp
  qed
qed

text \<open>The drop probability stays below one while the counts convert exactly.\<close>

lemma dr_bound:
  assumes x: "f64_lt (Finite 0 0) x"
    and a: "0 \<le> accepts" "accepts \<le> tot" and t: "tot < 2 ^ 53"
    and g: "\<not> f64_lt (float64_of_int64 tot) (f64_div (float64_of_int64 accepts) x)"
  obtains m e where "spec_dr x accepts tot = Finite m e" "nonneg64 (Finite m e)"
    "(of_int m :: rat) * 2 powi e \<le> of_int (2 ^ 53 - 1) * 2 powi (- 53)"
proof -
  have t0: "0 \<le> tot" using a by simp
  \<comment> \<open>the success count\<close>
  obtain ma ea where A: "float64_of_int64 accepts = Finite ma ea" and nA: "nonneg64 (Finite ma ea)"
  proof (cases "accepts = 0")
    case True
    then show thesis by (intro that [of 0 0]) (simp_all add: f64_of_int64_zero)
  next
    case False
    with a(1) have p: "0 < accepts" by simp
    obtain m e where "float64_of_int64 accepts = Finite m e" "0 < m" "is_float64 (Finite m e)"
      by (rule f64_of_int64_pos [OF p]) (use a t in simp_all)
    then show thesis by (intro that [of m e]) simp_all
  qed
  \<comment> \<open>the total count, exactly\<close>
  obtain mt et where T: "float64_of_int64 tot = Finite mt et" and mt: "0 \<le> mt" "mt = 0 \<longrightarrow> et = 0"
    and vT: "(of_int mt :: rat) * 2 powi et = of_int tot"
  proof (cases "tot = 0")
    case True
    then show thesis by (intro that [of 0 0]) (simp_all add: f64_of_int64_zero)
  next
    case False
    with t0 have p: "0 < tot" by simp
    obtain m e where "float64_of_int64 tot = Finite m e" "0 < m" "(of_int m :: rat) * 2 powi e = of_int tot"
      by (rule f64_of_int64_exact [OF p t])
    then show thesis by (intro that [of m e]) simp_all
  qed
  \<comment> \<open>the inspiration requests\<close>
  let ?I = "f64_div (float64_of_int64 accepts) x"
  have nI: "nonneg64 ?I" unfolding A by (rule f64_div_nonneg_positive [OF nA x])
  have "?I \<noteq> PInf" using g T by (auto simp: f64_lt_def)
  with nI obtain mi ei where I: "?I = Finite mi ei" and mi: "0 \<le> mi" by (cases ?I) auto
  have vI: "(0::rat) \<le> of_int mi * 2 powi ei" using mi by simp
  \<comment> \<open>the numerator\<close>
  obtain mn en where N: "f64_sub (Finite mt et) (Finite mi ei) = Finite mn en"
    and nN: "nonneg64 (Finite mn en)" and vN: "(of_int mn :: rat) * 2 powi en \<le> of_int tot"
  proof (cases "mt = 0 \<and> mi = 0")
    case True
    then have "f64_sub (Finite mt et) (Finite mi ei) = Finite 0 0" by (simp add: f64_sub_def zero_of_def)
    then show thesis using t0 by (intro that [of 0 0]) simp_all
  next
    case False
    then have nz: "mt \<noteq> 0 \<or> mi \<noteq> 0" by simp
    obtain n c where s: "f64_sub (Finite mt et) (Finite mi ei) = round_scaled n 1 c"
      and v: "(of_int n :: rat) * 2 powi c = of_int mt * 2 powi et - of_int mi * 2 powi ei"
      by (rule f64_sub_Finite [OF nz])
    from g T I have "(of_int mi :: rat) * 2 powi ei \<le> of_int mt * 2 powi et"
      by (simp add: f64_lt_Finite not_less)
    with v have nn: "(0::rat) \<le> of_int n * 2 powi c" by simp
    have n0: "0 \<le> n"
    proof (rule ccontr)
      assume "\<not> 0 \<le> n"
      then have "(of_int n :: rat) < 0" by simp
      then have "of_int n * 2 powi c < (0::rat)" by (intro mult_neg_pos) simp_all
      with nn show False by simp
    qed
    have le: "(of_int n :: rat) / of_int 1 * 2 powi c \<le> of_int tot * 2 powi 0"
      using v vI vT by simp
    obtain m e where "round_scaled n 1 c = Finite m e" "nonneg64 (Finite m e)"
      "(of_int m :: rat) * 2 powi e \<le> of_int tot * 2 powi 0"
      by (rule round_scaled_upper [OF n0 _ le t]; simp)
    then show thesis using s by (intro that [of m e]) simp_all
  qed
  \<comment> \<open>the denominator, exactly\<close>
  have w: "wrap64 (tot + 1) = tot + 1" using t0 t by (intro wrap64_id) simp_all
  obtain md ed where D: "float64_of_int64 (tot + 1) = Finite md ed" and md: "0 < md"
    and vD: "(of_int md :: rat) * 2 powi ed = of_int (tot + 1)"
    by (rule f64_of_int64_exact_le [of "tot + 1"]) (use t0 t in simp_all)
  \<comment> \<open>the quotient\<close>
  have q: "(of_int tot :: rat) / of_int (tot + 1) \<le> of_int (2 ^ 53 - 1) * 2 powi (- 53)"
  proof -
    have "tot * 2 ^ 53 \<le> (2 ^ 53 - 1) * (tot + 1)" using t by simp
    then have "(of_int (tot * 2 ^ 53) :: rat) \<le> of_int ((2 ^ 53 - 1) * (tot + 1))"
      by (simp only: of_int_le_iff)
    moreover have "(0::rat) < of_int (tot + 1)" using t0 by simp
    ultimately show ?thesis by (simp add: field_simps power_int_minus)
  qed
  obtain mq eq where Q: "f64_div (Finite mn en) (Finite md ed) = Finite mq eq"
    and nQ: "nonneg64 (Finite mq eq)"
    and vQ: "(of_int mq :: rat) * 2 powi eq \<le> of_int (2 ^ 53 - 1) * 2 powi (- 53)"
  proof (cases "mn = 0")
    case True
    then have "f64_div (Finite mn en) (Finite md ed) = Finite 0 0"
      using md by (simp add: f64_div_def zero_of_def)
    then show thesis by (intro that [of 0 0]) simp_all
  next
    case False
    with nN have mn: "0 < mn" by auto
    have dpos: "(0::rat) < of_int md * 2 powi ed" using md by simp
    have "(of_int mn :: rat) / of_int md * 2 powi (en - ed)
          = (of_int mn * 2 powi en) / (of_int md * 2 powi ed)" by (rule scaled_value)
    also have "\<dots> \<le> of_int tot / (of_int md * 2 powi ed)"
      using vN dpos by (intro divide_right_mono) simp_all
    also have "\<dots> = of_int tot / of_int (tot + 1)" by (simp only: vD)
    also note q
    finally have le: "(of_int mn :: rat) / of_int md * 2 powi (en - ed)
                      \<le> of_int (2 ^ 53 - 1) * 2 powi (- 53)" .
    obtain m e where "round_scaled mn md (en - ed) = Finite m e" "nonneg64 (Finite m e)"
      "(of_int m :: rat) * 2 powi e \<le> of_int (2 ^ 53 - 1) * 2 powi (- 53)"
      by (rule round_scaled_upper [OF _ md le]; use mn in simp)
    then show thesis using mn md by (intro that [of m e]) (simp_all add: f64_div_Finite_pos)
  qed
  have "spec_dr x accepts tot = f64_max (Finite 0 0) (Finite mq eq)"
    by (simp add: spec_dr_def T I N w D Q)
  also have "\<dots> = Finite mq eq" by (rule f64_max_zero_nonneg [OF nQ])
  finally show thesis using nQ vQ by (rule that)
qed

text \<open>A success rate at or above \<open>isr\<close> makes the drop probability zero, unless the guard admits.\<close>

lemma healthy_dr_zero:
  assumes mx: "0 < mx"
    and a: "0 \<le> accepts" "accepts \<le> tot" and t: "tot \<le> 2 ^ 53"
    and r: "f64_val (Finite mx ex) \<le> of_int accepts / of_int tot"
    and g: "\<not> f64_lt (float64_of_int64 tot) (f64_div (float64_of_int64 accepts) (Finite mx ex))"
  shows "spec_dr (Finite mx ex) accepts tot = Finite 0 0"
proof -
  let ?v = "(of_int mx :: rat) * 2 powi ex"
  have vpos: "0 < ?v" using mx by simp
  from r have r': "?v \<le> of_int accepts / of_int tot" by simp
  with vpos have qpos: "(0::rat) < of_int accepts / of_int tot" by simp
  have apos: "0 < accepts"
  proof (rule ccontr)
    assume "\<not> 0 < accepts"
    with a(1) have "accepts = 0" by simp
    with qpos show False by simp
  qed
  with a(2) have tpos: "0 < tot" by simp
  \<comment> \<open>both counts convert exactly\<close>
  obtain ma ea where A: "float64_of_int64 accepts = Finite ma ea" and ma: "0 < ma"
    and vA: "(of_int ma :: rat) * 2 powi ea = of_int accepts"
    by (rule f64_of_int64_exact_le [OF apos]) (use a t in simp_all)
  obtain mt et where T: "float64_of_int64 tot = Finite mt et" and mt: "0 < mt"
    and vT: "(of_int mt :: rat) * 2 powi et = of_int tot"
    by (rule f64_of_int64_exact_le [OF tpos t])
  \<comment> \<open>the inspiration requests are at least the total\<close>
  have ge: "(of_int tot :: rat) \<le> of_int ma / of_int mx * 2 powi (ea - ex)"
  proof -
    have "?v * of_int tot \<le> of_int accepts"
      using r' tpos by (simp add: pos_le_divide_eq)
    then have "(of_int tot :: rat) \<le> of_int accepts / ?v"
      using vpos by (simp add: pos_le_divide_eq mult.commute)
    also have "\<dots> = (of_int ma * 2 powi ea) / ?v" by (simp only: vA)
    also have "\<dots> = of_int ma / of_int mx * 2 powi (ea - ex)" by (rule scaled_value [symmetric])
    finally show ?thesis .
  qed
  obtain M E where ME: "(of_int M :: rat) * 2 powi E = of_int tot" "0 < M" "M < 2 ^ 53" "- 1074 \<le> E"
  proof (cases "tot = 2 ^ 53")
    case True
    then show thesis by (intro that [of "2 ^ 52" 1]) simp_all
  next
    case False
    with t tpos show thesis by (intro that [of tot 0]) simp_all
  qed
  have I: "f64_div (Finite ma ea) (Finite mx ex) = round_scaled ma mx (ea - ex)"
    by (rule f64_div_Finite_pos [OF ma mx])
  from ge have "of_int M * 2 powi E \<le> (of_int ma :: rat) / of_int mx * 2 powi (ea - ex)"
    by (simp only: ME(1))
  from round_scaled_lower [OF ma mx this ME(2,3,4)] g
  obtain mi ei where I': "round_scaled ma mx (ea - ex) = Finite mi ei"
    and vI: "(of_int tot :: rat) \<le> of_int mi * 2 powi ei"
    unfolding A T I by (auto simp: f64_lt_def ME(1))
  from g have "(of_int mi :: rat) * 2 powi ei \<le> of_int tot"
    unfolding A T I I' by (simp add: f64_lt_Finite not_less vT)
  with vI have eq: "(of_int mi :: rat) * 2 powi ei = of_int mt * 2 powi et" by (simp add: vT)
  \<comment> \<open>so the numerator is the positive zero\<close>
  have nz: "mt \<noteq> 0 \<or> mi \<noteq> 0" using mt by simp
  obtain n c where s: "f64_sub (Finite mt et) (Finite mi ei) = round_scaled n 1 c"
    and v: "(of_int n :: rat) * 2 powi c = of_int mt * 2 powi et - of_int mi * 2 powi ei"
    by (rule f64_sub_Finite [OF nz])
  from v eq have "(of_int n :: rat) * 2 powi c = 0" by simp
  then have "n = 0" by simp
  with s have N: "f64_sub (Finite mt et) (Finite mi ei) = Finite 0 0" by (simp add: round_scaled_zero)
  \<comment> \<open>and so is the quotient\<close>
  have w: "wrap64 (tot + 1) = tot + 1" using tpos t by (intro wrap64_id) simp_all
  obtain md ed where D: "float64_of_int64 (tot + 1) = Finite md ed" and md: "0 < md"
    by (rule f64_of_int64_pos [of "tot + 1"]) (use tpos t in simp_all)
  have Q: "f64_div (Finite 0 0) (Finite md ed) = Finite 0 0"
    using md by (simp add: f64_div_def zero_of_def)
  show ?thesis
    by (simp add: spec_dr_def A T I I' N w D Q f64_max_def)
qed

text \<open>
  The rate of C2 is compared with \<open>isr\<close> as a number. Compared in float64 it would not
  do, already at small counts: for \<open>isr = 0.56\<close>, that is the float64
  \<open>5044031582654956 * 2 ^ - 53\<close> just above \<open>14/25\<close>, 140 successes among 250 requests
  have the float64 rate \<open>isr\<close> itself, while the exact rate is below it; the inspiration
  requests round below 250 and the drop probability is positive.
\<close>

lemma rate_compared_in_float64:
  "f64_div (float64_of_int64 140) (float64_of_int64 250) = Finite 5044031582654956 (- 53)
   \<and> of_int 140 / of_int 250 < f64_val (Finite 5044031582654956 (- 53))
   \<and> f64_div (float64_of_int64 140) (Finite 5044031582654956 (- 53)) = Finite 8796093022207999 (- 45)
   \<and> f64_lt (Finite 8796093022207999 (- 45)) (float64_of_int64 250)
   \<and> spec_dr (Finite 5044031582654956 (- 53)) 140 250 = Finite 4593312767357956 (- 105)"
proof -
  have 1: "f64_div (float64_of_int64 140) (float64_of_int64 250) = Finite 5044031582654956 (- 53)"
    by (simp add: f64_eval)
  have 2: "of_int 140 / of_int 250 < f64_val (Finite 5044031582654956 (- 53))"
    by (simp add: power_int_minus)
  have 3: "f64_div (float64_of_int64 140) (Finite 5044031582654956 (- 53)) = Finite 8796093022207999 (- 45)"
    by (simp add: f64_eval)
  have 4: "f64_lt (Finite 8796093022207999 (- 45)) (float64_of_int64 250)"
    by (simp add: f64_eval)
  have 5: "spec_dr (Finite 5044031582654956 (- 53)) 140 250 = Finite 4593312767357956 (- 105)"
    by (simp add: spec_dr_def f64_eval)
  show ?thesis by (intro conjI 1 2 3 4 5)
qed

lemma below_one_below_dr_one:
  assumes "f64_lt s (Finite 1 0)"
  shows "f64_lt s (Finite (2 ^ 52) (- 52))"
proof (cases s)
  case (Finite m e)
  have "(of_int (2 ^ 52) :: rat) * 2 powi (- 52) = of_int 1 * 2 powi 0"
    by (simp add: power_int_minus)
  with assms Finite show ?thesis by (simp only: f64_lt_Finite)
qed (use assms in \<open>simp_all add: f64_lt_def lt_at_def\<close>)

text \<open>
  After \<open>2 ^ 53\<close> failures and no success the default policy rejects whatever sample
  below 1 the generator returns.
\<close>

lemma rejection_certain_every_sample:
  assumes "f64_lt (shd g) (Finite 1 0)"
  shows "fst (Allow (loaded getSREBreaker 0 (2 ^ 53)) 0 g) = Some ErrNotAllowed"
proof -
  let ?b = "loaded getSREBreaker 0 (2 ^ 53)"
  have i: "isr (loaded getSREBreaker s t) = Finite 1 (- 1)"
    "ignoreRequests (loaded getSREBreaker s t) = 100"
    "dropProba (loaded getSREBreaker s t) = default_dropProba"
    "rnd (loaded getSREBreaker s t) = \<lparr>idle = []\<rparr>" for s t
    by (simp_all add: loaded_def getSREBreaker_def)
  have h1: "summary ?b 0 = (0, 2 ^ 53)"
    by (simp add: summary_loaded getSREBreaker_def NewWindow_def)
  have h2: "\<not> guard_fires ?b 0 (2 ^ 53)"
    by (simp add: guard_fires_def i f64_eval)
  have dr: "spec_dr (Finite 1 (- 1)) 0 (2 ^ 53) = Finite (2 ^ 52) (- 52)"
    by (simp add: spec_dr_def f64_eval)
  show ?thesis
    using Allow_no_guard [OF h1 h2, of g] dr below_one_below_dr_one [OF assms]
    by (simp add: Let_def i pool_Get_def default_dropProba_def Float64_def)
qed

section \<open>The claims\<close>

text \<open>
  C1. Self-protection guard: in every window state \<open>(accepts, tot)\<close> in which the window
  holds fewer than \<open>ignoreRequests\<close> requests, or fewer than \<open>accepts / isr\<close> (the float64
  comparison of the code), \<open>Allow\<close> returns nil at once and leaves the breaker as it is:
  no generator leaves the pool and no sample is drawn. This holds for every \<open>isr\<close>. In
  particular, on a breaker whose window is empty, after at most \<open>ignoreRequests - 1\<close>
  calls of \<open>MarkFailed\<close> (at any clock readings) and no \<open>MarkSuccess\<close>, \<open>Allow\<close> admits.
\<close>

theorem self_protection:
  "(summary b now = (accepts, tot) \<and> guard_fires b accepts tot \<longrightarrow> Allow b now fresh = (None, b))
   \<and> (buckets (stat b) = [] \<and> int (length ts) \<le> ignoreRequests b - 1 \<longrightarrow>
        Allow (foldl MarkFailed b ts) now fresh = (None, foldl MarkFailed b ts))"
proof (intro conjI impI)
  assume "summary b now = (accepts, tot) \<and> guard_fires b accepts tot"
  then show "Allow b now fresh = (None, b)" by (simp add: Allow_guard)
next
  assume a: "buckets (stat b) = [] \<and> int (length ts) \<le> ignoreRequests b - 1"
  let ?b = "foldl MarkFailed b ts"
  have ok: "window_ok (stat b)" using a by (simp add: window_ok_def)
  from markFailed_run [OF ok, of ts] a
  have 1: "window_ok (stat ?b)"
    and 2: "sum_list (map bcount (buckets (stat ?b))) \<le> int (length ts)"
    and 3: "ignoreRequests ?b = ignoreRequests b" by simp_all
  have "snd (summary ?b now) < ignoreRequests ?b"
    using Count_le [OF 1, of now] 2 3 a by (simp add: summary_def)
  then have "guard_fires ?b (fst (summary ?b now)) (snd (summary ?b now))"
    by (simp add: guard_fires_def)
  then show "Allow ?b now fresh = (None, ?b)"
    by (intro Allow_guard [where accepts = "fst (summary ?b now)" and tot = "snd (summary ?b now)"]) simp_all
qed

theorem self_protection_witness:
  "summary (loaded getSREBreaker 80 120) 0 = (80, 120)
   \<and> guard_fires (loaded getSREBreaker 80 120) 80 120
   \<and> Allow (loaded getSREBreaker 80 120) 0 (sconst (Finite 0 0)) = (None, loaded getSREBreaker 80 120)
   \<and> buckets (stat getSREBreaker) = []
   \<and> int (length [0, 1, 2 :: int]) \<le> ignoreRequests getSREBreaker - 1
   \<and> Allow (foldl MarkFailed getSREBreaker [0, 1, 2]) 3 (sconst (Finite 0 0)) =
       (None, foldl MarkFailed getSREBreaker [0, 1, 2])"
proof -
  have h1: "summary (loaded getSREBreaker 80 120) 0 = (80, 120)"
    by (simp add: summary_loaded getSREBreaker_def NewWindow_def)
  have h2: "guard_fires (loaded getSREBreaker 80 120) 80 120"
    by (simp add: guard_fires_def loaded_def getSREBreaker_def f64_eval)
  have h3: "buckets (stat getSREBreaker) = []"
    by (simp add: getSREBreaker_def NewWindow_def)
  have h4: "int (length [0, 1, 2 :: int]) \<le> ignoreRequests getSREBreaker - 1"
    by (simp add: getSREBreaker_def)
  show ?thesis
    using self_protection [where b = "loaded getSREBreaker 80 120" and now = 0 and accepts = 80
        and tot = 120 and fresh = "sconst (Finite 0 0)" and ts = "[]"]
      self_protection [where b = getSREBreaker and now = 3 and accepts = 0 and tot = 0
        and fresh = "sconst (Finite 0 0)" and ts = "[0, 1, 2]"]
      h1 h2 h3 h4 by blast
qed

text \<open>
  C3. Drop-probability formula: when the guard does not fire, \<open>Allow\<close> passes to
  \<open>dropProba\<close> the generator taken from the pool and the probability
  \<open>max(0, (tot - accepts / isr) / (tot + 1))\<close>, and it returns the rejected error exactly
  when \<open>dropProba\<close> says so, nil otherwise. With the default policy the verdict is
  \<open>sample < dr\<close> for the next value of that generator, which goes back to the pool
  advanced by this one sample.
\<close>

theorem drop_probability_formula:
  assumes "summary b now = (accepts, tot)" and "\<not> guard_fires b accepts tot"
  shows "fst (Allow b now fresh) =
           (if fst (dropProba b (fst (pool_Get (rnd b) fresh)) (spec_dr (isr b) accepts tot))
            then Some ErrNotAllowed else None)
         \<and> (dropProba b = default_dropProba \<longrightarrow>
              fst (Allow b now fresh) =
                (if f64_lt (shd (fst (pool_Get (rnd b) fresh))) (spec_dr (isr b) accepts tot)
                 then Some ErrNotAllowed else None)
              \<and> rnd (snd (Allow b now fresh)) =
                  pool_Put (snd (pool_Get (rnd b) fresh)) (stl (fst (pool_Get (rnd b) fresh))))"
  by (simp add: Allow_no_guard [OF assms] Let_def default_dropProba_def Float64_def)

theorem drop_probability_formula_witness:
  "summary (loaded getSREBreaker 0 200) 0 = (0, 200)
   \<and> \<not> guard_fires (loaded getSREBreaker 0 200) 0 200
   \<and> spec_dr (isr (loaded getSREBreaker 0 200)) 0 200 = Finite 8962387318150241 (- 53)
   \<and> fst (Allow (loaded getSREBreaker 0 200) 0 (sconst (Finite 1 (- 1)))) = Some ErrNotAllowed
   \<and> fst (Allow (loaded getSREBreaker 0 200) 0 (sconst (Finite 1 0))) = None"
proof -
  let ?b = "loaded getSREBreaker 0 200"
  have h1: "summary ?b 0 = (0, 200)"
    by (simp add: summary_loaded getSREBreaker_def NewWindow_def)
  have h2: "\<not> guard_fires ?b 0 200"
    by (simp add: guard_fires_def loaded_def getSREBreaker_def f64_eval)
  have i: "isr ?b = Finite 1 (- 1)" "dropProba ?b = default_dropProba" "rnd ?b = \<lparr>idle = []\<rparr>"
    by (simp_all add: loaded_def getSREBreaker_def)
  have dr: "spec_dr (Finite 1 (- 1)) 0 200 = Finite 8962387318150241 (- 53)"
    by (simp add: spec_dr_def f64_eval)
  have lt1: "f64_lt (Finite 1 (- 1)) (Finite 8962387318150241 (- 53))"
    by (simp add: f64_eval)
  have lt2: "\<not> f64_lt (Finite 1 0) (Finite 8962387318150241 (- 53))"
    by (simp add: f64_eval)
  show ?thesis
    using drop_probability_formula [OF h1 h2, of "sconst (Finite 1 (- 1))"]
      drop_probability_formula [OF h1 h2, of "sconst (Finite 1 0)"] h1 h2 lt1 lt2
    by (simp add: i dr pool_Get_def default_dropProba_def Float64_def)
qed

text \<open>
  C5. Error taxonomy: \<open>Allow\<close> returns nil or the sentinel \<open>ErrNotAllowed\<close>, never another
  error, whatever the window, the pool and the drop policy are. \<open>MarkSuccess\<close> and
  \<open>MarkFailed\<close> have no error outcome: each returns the breaker with one observation
  (1 or 0) added to its window.
\<close>

theorem error_taxonomy:
  "(fst (Allow b now fresh) = None \<or> fst (Allow b now fresh) = Some ErrNotAllowed)
   \<and> MarkSuccess b now = b\<lparr>stat := Add (stat b) now 1\<rparr>
   \<and> MarkFailed b now = b\<lparr>stat := Add (stat b) now 0\<rparr>"
  by (simp add: Allow_def MarkSuccess_def MarkFailed_def Let_def split: prod.splits)

theorem error_taxonomy_witness:
  "(fst (Allow (loaded getSREBreaker 0 200) 0 (sconst (Finite 1 (- 1)))) = None
    \<or> fst (Allow (loaded getSREBreaker 0 200) 0 (sconst (Finite 1 (- 1)))) = Some ErrNotAllowed)
   \<and> MarkSuccess getSREBreaker 0 = getSREBreaker\<lparr>stat := Add (stat getSREBreaker) 0 1\<rparr>
   \<and> MarkFailed getSREBreaker 0 = getSREBreaker\<lparr>stat := Add (stat getSREBreaker) 0 0\<rparr>"
  using error_taxonomy [of "loaded getSREBreaker 0 200" 0 "sconst (Finite 1 (- 1))"]
    error_taxonomy [of getSREBreaker 0]
  by simp

text \<open>
  C6. Window count invariant: starting from an empty window, after every sequence of
  \<open>Allow\<close>, \<open>MarkSuccess\<close> and \<open>MarkFailed\<close> calls at any clock readings, the counts that
  \<open>summary\<close> reports at any instant satisfy \<open>0 \<le> successCount \<le> totalCount\<close>.
\<close>

theorem window_count_invariant:
  assumes "buckets (stat b) = []"
  shows "0 \<le> fst (summary (foldl step b cs) now)
         \<and> fst (summary (foldl step b cs) now) \<le> snd (summary (foldl step b cs) now)"
proof -
  have "window_ok (stat b)" using assms by (simp add: window_ok_def)
  then have "window_ok (stat (foldl step b cs))" by (rule run_ok)
  then show ?thesis using Sum_Count_ok by (simp add: summary_def)
qed

theorem window_count_invariant_witness:
  "buckets (stat getSREBreaker) = []
   \<and> summary (foldl step getSREBreaker
        [(CallMarkSuccess, 0), (CallMarkFailed, 1), (CallAllow (sconst (Finite 0 0)), 2)]) 3 = (1, 2)
   \<and> 0 \<le> fst (summary (foldl step getSREBreaker
        [(CallMarkSuccess, 0), (CallMarkFailed, 1), (CallAllow (sconst (Finite 0 0)), 2)]) 3)
   \<and> fst (summary (foldl step getSREBreaker
        [(CallMarkSuccess, 0), (CallMarkFailed, 1), (CallAllow (sconst (Finite 0 0)), 2)]) 3)
       \<le> snd (summary (foldl step getSREBreaker
        [(CallMarkSuccess, 0), (CallMarkFailed, 1), (CallAllow (sconst (Finite 0 0)), 2)]) 3)"
proof -
  let ?cs = "[(CallMarkSuccess, 0), (CallMarkFailed, 1), (CallAllow (sconst (Finite 0 0)), 2)]"
  have e: "buckets (stat getSREBreaker) = []"
    by (simp add: getSREBreaker_def NewWindow_def)
  have s: "summary (foldl step getSREBreaker ?cs) 3 = (1, 2)"
    by (simp add: window_eval stat_Allow)
  from window_count_invariant [OF e, of ?cs 3] e s show ?thesis by blast
qed

text \<open>
  C7. \<open>Allow\<close> is read-only on the window: the window, and so the counts reported at
  any instant, the success rate and the request floor are unchanged. The breaker after
  the call is the breaker before it, or differs from it in the pool alone: one generator
  was taken by \<open>Get\<close>, handed to \<open>dropProba\<close> and returned by \<open>Put\<close>.
\<close>

theorem Allow_frame:
  "stat (snd (Allow b now fresh)) = stat b
   \<and> summary (snd (Allow b now fresh)) t = summary b t
   \<and> isr (snd (Allow b now fresh)) = isr b
   \<and> ignoreRequests (snd (Allow b now fresh)) = ignoreRequests b
   \<and> (snd (Allow b now fresh) = b
       \<or> (\<exists>dr. snd (Allow b now fresh) =
             b\<lparr>rnd := pool_Put (snd (pool_Get (rnd b) fresh))
                         (snd (dropProba b (fst (pool_Get (rnd b) fresh)) dr))\<rparr>))"
proof -
  obtain accepts tot where s: "summary b now = (accepts, tot)" by (cases "summary b now")
  show ?thesis
  proof (cases "guard_fires b accepts tot")
    case True
    then show ?thesis by (simp add: Allow_guard [OF s])
  next
    case False
    have "\<exists>dr. snd (Allow b now fresh) =
             b\<lparr>rnd := pool_Put (snd (pool_Get (rnd b) fresh))
                         (snd (dropProba b (fst (pool_Get (rnd b) fresh)) dr))\<rparr>"
      by (rule exI [of _ "spec_dr (isr b) accepts tot"]) (simp add: Allow_no_guard [OF s False] Let_def)
    then show ?thesis by (auto simp: Allow_no_guard [OF s False] Let_def summary_def)
  qed
qed

theorem Allow_frame_witness:
  "stat (snd (Allow (loaded getSREBreaker 0 200) 0 (sconst (Finite 1 (- 1))))) = stat (loaded getSREBreaker 0 200)
   \<and> summary (snd (Allow (loaded getSREBreaker 0 200) 0 (sconst (Finite 1 (- 1))))) 0 = (0, 200)"
  using Allow_frame [of "loaded getSREBreaker 0 200" 0 "sconst (Finite 1 (- 1))" 0]
  by (simp add: summary_loaded getSREBreaker_def NewWindow_def)

text \<open>
  C8. Determinism with an injected drop policy: with the constant-false policy \<open>Allow\<close>
  returns nil in every window state; with the constant-true policy it rejects exactly
  when the guard does not fire; with either, the result is the same for every pool
  content and every fresh generator, so it depends on the window counts alone.
\<close>

theorem constant_dropProba_deterministic:
  assumes "summary b now = (accepts, tot)"
  shows "fst (Allow (b\<lparr>rnd := p, dropProba := const_dropProba False\<rparr>) now fresh) = None
         \<and> fst (Allow (b\<lparr>rnd := p, dropProba := const_dropProba True\<rparr>) now fresh) =
             (if guard_fires b accepts tot then None else Some ErrNotAllowed)
         \<and> fst (Allow (b\<lparr>rnd := p, dropProba := const_dropProba c\<rparr>) now fresh) =
             fst (Allow (b\<lparr>rnd := p', dropProba := const_dropProba c\<rparr>) now fresh')"
proof -
  have s: "summary (b\<lparr>rnd := q, dropProba := f\<rparr>) now = (accepts, tot)" for q f
    using assms by (simp add: summary_def)
  have g: "guard_fires (b\<lparr>rnd := q, dropProba := f\<rparr>) accepts tot = guard_fires b accepts tot" for q f
    by (simp add: guard_fires_def)
  have r: "fst (Allow (b\<lparr>rnd := q, dropProba := const_dropProba d\<rparr>) now fr) =
             (if guard_fires b accepts tot \<or> \<not> d then None else Some ErrNotAllowed)" for q d fr
  proof (cases "guard_fires b accepts tot")
    case True
    then show ?thesis using Allow_guard [OF s [where q = q and f = "const_dropProba d"], of fr] by (simp add: g)
  next
    case False
    then show ?thesis using Allow_no_guard [OF s [where q = q and f = "const_dropProba d"], of fr]
      by (simp add: g const_dropProba_def Let_def)
  qed
  show ?thesis by (simp add: r)
qed

theorem constant_dropProba_deterministic_witness:
  "summary (loaded getSREBreaker 0 10000) 0 = (0, 10000)
   \<and> fst (Allow (loaded getSREBreaker 0 10000\<lparr>rnd := \<lparr>idle = []\<rparr>, dropProba := const_dropProba False\<rparr>)
        0 (sconst (Finite 0 0))) = None
   \<and> fst (Allow (loaded getSREBreaker 0 10000\<lparr>rnd := \<lparr>idle = []\<rparr>, dropProba := const_dropProba True\<rparr>)
        0 (sconst (Finite 0 0))) = Some ErrNotAllowed"
proof -
  let ?b = "loaded getSREBreaker 0 10000"
  have h1: "summary ?b 0 = (0, 10000)"
    by (simp add: summary_loaded getSREBreaker_def NewWindow_def)
  have h2: "\<not> guard_fires ?b 0 10000"
    by (simp add: guard_fires_def loaded_def getSREBreaker_def f64_eval)
  show ?thesis
    using constant_dropProba_deterministic [OF h1, of "\<lparr>idle = []\<rparr>" "sconst (Finite 0 0)"] h1 h2
    by simp
qed

text \<open>
  C9. A zero \<open>isr\<close> divides by zero: \<open>New\<close> stores the rate its option sets as it is, for
  every value and so for zero; \<open>Allow\<close> then divides the success count by that zero, which
  in float64 is no panic but \<open>+Inf\<close>, or NaN when the count is zero too; nothing guards
  the result: with no successes and the request floor reached, the probability handed to
  the drop policy is NaN.
\<close>

theorem zero_isr_divides_by_zero:
  assumes "isr b = Finite 0 0" and "summary b now = (accepts, tot)"
    and "0 \<le> accepts" and "accepts < 2 ^ 63"
  shows "isr (New (opts @ [WithInspirationSuccessRate x])) = x
       \<and> f64_div (float64_of_int64 accepts) (isr b) = (if accepts = 0 then NaN else PInf)
       \<and> (accepts = 0 \<and> \<not> tot < ignoreRequests b \<longrightarrow>
            spec_dr (isr b) accepts tot = NaN
            \<and> fst (Allow b now fresh) =
                (if fst (dropProba b (fst (pool_Get (rnd b) fresh)) NaN)
                 then Some ErrNotAllowed else None))"
proof -
  have d: "f64_div (float64_of_int64 accepts) (isr b) = (if accepts = 0 then NaN else PInf)"
  proof (cases "accepts = 0")
    case True
    then show ?thesis using assms(1) by (simp add: f64_of_int64_zero f64_div_def)
  next
    case False
    with assms(3) have p: "0 < accepts" by simp
    obtain m e where "float64_of_int64 accepts = Finite m e" "0 < m"
      by (rule f64_of_int64_pos [OF p]) (use assms(4) in simp_all)
    then show ?thesis using False assms(1) by (simp add: f64_div_def inf_of_def)
  qed
  have n: "spec_dr (isr b) accepts tot = NaN" if "accepts = 0"
    using that d by (simp add: spec_dr_def f64_sub_def f64_div_def f64_max_def)
  have g: "\<not> guard_fires b accepts tot" if "accepts = 0" "\<not> tot < ignoreRequests b"
    using that d by (simp add: guard_fires_def f64_lt_def)
  show ?thesis
    using d n Allow_no_guard [OF assms(2) g, of fresh] by (simp add: isr_New_last Let_def)
qed

theorem zero_isr_divides_by_zero_witness:
  "isr (loaded (New [WithInspirationSuccessRate (Finite 0 0)]) 0 200) = Finite 0 0
   \<and> summary (loaded (New [WithInspirationSuccessRate (Finite 0 0)]) 0 200) 0 = (0, 200)
   \<and> f64_div (float64_of_int64 0) (Finite 0 0) = NaN
   \<and> spec_dr (Finite 0 0) 0 200 = NaN
   \<and> fst (Allow (loaded (New [WithInspirationSuccessRate (Finite 0 0)]) 0 200) 0 (sconst (Finite 0 0))) = None"
proof -
  let ?b = "loaded (New [WithInspirationSuccessRate (Finite 0 0)]) 0 200"
  have i: "isr ?b = Finite 0 0" "ignoreRequests ?b = 100" "dropProba ?b = default_dropProba"
    by (simp_all add: loaded_def New_def WithInspirationSuccessRate_def default_options_def)
  have s: "summary ?b 0 = (0, 200)"
    by (simp add: summary_loaded New_def NewWindow_def default_options_def WithInspirationSuccessRate_def)
  show ?thesis
    using zero_isr_divides_by_zero [OF i(1) s, of "[]" "Finite 0 0" "sconst (Finite 0 0)"] i s
    by (simp add: default_dropProba_def Float64_def f64_lt_def)
qed

text \<open>
  C10, as stated: the clamp is redundant in every state that reaches it with \<open>isr > 0\<close>
  and \<open>totalCount \<ge> 0\<close>, the denominator \<open>totalCount + 1\<close> being positive. This fails at
  \<open>totalCount = 2 ^ 63 - 1\<close>, the largest int64: there \<open>totalCount + 1\<close> wraps around to
  \<open>- 2 ^ 63\<close>, the denominator is negative, the quotient is \<open>- 1\<close> and the clamp turns
  it into 0.
\<close>

theorem clamp_needed_at_max_int64:
  "summary (loaded getSREBreaker 0 (2 ^ 63 - 1)) 0 = (0, 2 ^ 63 - 1)
   \<and> \<not> guard_fires (loaded getSREBreaker 0 (2 ^ 63 - 1)) 0 (2 ^ 63 - 1)
   \<and> f64_lt (Finite 0 0) (isr (loaded getSREBreaker 0 (2 ^ 63 - 1)))
   \<and> float64_of_int64 (wrap64 (2 ^ 63 - 1 + 1)) = Finite (- (2 ^ 52)) 11
   \<and> \<not> f64_lt (Finite 0 0) (float64_of_int64 (wrap64 (2 ^ 63 - 1 + 1)))
   \<and> unclamped_dr (isr (loaded getSREBreaker 0 (2 ^ 63 - 1))) 0 (2 ^ 63 - 1) = Finite (- (2 ^ 52)) (- 52)
   \<and> spec_dr (isr (loaded getSREBreaker 0 (2 ^ 63 - 1))) 0 (2 ^ 63 - 1) = Finite 0 0"
proof -
  let ?b = "loaded getSREBreaker 0 (2 ^ 63 - 1)"
  have h1: "summary ?b 0 = (0, 2 ^ 63 - 1)"
    by (simp add: summary_loaded getSREBreaker_def NewWindow_def)
  have i: "isr (loaded getSREBreaker s t) = Finite 1 (- 1)"
    "ignoreRequests (loaded getSREBreaker s t) = 100" for s t
    by (simp_all add: loaded_def getSREBreaker_def)
  have h2: "\<not> guard_fires ?b 0 (2 ^ 63 - 1)"
    by (simp add: guard_fires_def i f64_eval)
  have h3: "f64_lt (Finite 0 0) (isr ?b)" by (simp add: i f64_eval)
  have d: "float64_of_int64 (wrap64 (2 ^ 63 - 1 + 1)) = Finite (- (2 ^ 52)) 11"
    by (simp add: f64_eval)
  have d': "\<not> f64_lt (Finite 0 0) (Finite (- (2 ^ 52)) 11)"
    by (simp add: f64_eval)
  have u: "unclamped_dr (Finite 1 (- 1)) 0 (2 ^ 63 - 1) = Finite (- (2 ^ 52)) (- 52)"
    by (simp add: unclamped_dr_def f64_eval)
  have s: "spec_dr (Finite 1 (- 1)) 0 (2 ^ 63 - 1) = Finite 0 0"
    by (simp add: spec_dr_def f64_eval)
  show ?thesis using h1 h2 h3 d d' u s by (simp add: i)
qed

text \<open>
  C10, amended: in every state that reaches the drop-probability computation with
  \<open>isr > 0\<close>, an int64 success count and \<open>0 \<le> totalCount < 2 ^ 63 - 1\<close>, the numerator
  is not negative, the denominator is positive, the clamp changes nothing, and \<open>Allow\<close>
  decides as it would with the unclamped quotient.
\<close>

theorem clamp_redundant_below_max_int64:
  assumes "summary b now = (accepts, tot)" and "\<not> guard_fires b accepts tot"
    and "f64_lt (Finite 0 0) (isr b)"
    and "- (2 ^ 63) \<le> accepts" and "accepts < 2 ^ 63" and "0 \<le> tot" and "tot < 2 ^ 63 - 1"
  shows "nonneg64 (f64_sub (float64_of_int64 tot) (f64_div (float64_of_int64 accepts) (isr b)))
       \<and> f64_lt (Finite 0 0) (float64_of_int64 (wrap64 (tot + 1)))
       \<and> spec_dr (isr b) accepts tot = unclamped_dr (isr b) accepts tot
       \<and> fst (Allow b now fresh) =
           (if fst (dropProba b (fst (pool_Get (rnd b) fresh)) (unclamped_dr (isr b) accepts tot))
            then Some ErrNotAllowed else None)"
proof -
  from assms(2) have g: "\<not> f64_lt (float64_of_int64 tot) (f64_div (float64_of_int64 accepts) (isr b))"
    by (simp add: guard_fires_def)
  note u = unclamped_nonneg [OF assms(3) assms(4) assms(5) assms(6) assms(7) g]
  have e: "spec_dr (isr b) accepts tot = unclamped_dr (isr b) accepts tot"
    using f64_max_zero_nonneg [OF u(3)] by (simp add: spec_dr_def unclamped_dr_def)
  show ?thesis
    using u(1) u(2) e by (simp add: Allow_no_guard [OF assms(1) assms(2)] Let_def)
qed

theorem clamp_redundant_below_max_int64_witness:
  "summary (loaded getSREBreaker 0 200) 0 = (0, 200)
   \<and> \<not> guard_fires (loaded getSREBreaker 0 200) 0 200
   \<and> f64_lt (Finite 0 0) (isr (loaded getSREBreaker 0 200))
   \<and> f64_sub (float64_of_int64 200) (f64_div (float64_of_int64 0) (Finite 1 (- 1))) = Finite 7036874417766400 (- 45)
   \<and> float64_of_int64 (wrap64 (200 + 1)) = Finite 7072058789855232 (- 45)
   \<and> spec_dr (Finite 1 (- 1)) 0 200 = unclamped_dr (Finite 1 (- 1)) 0 200
   \<and> unclamped_dr (Finite 1 (- 1)) 0 200 = Finite 8962387318150241 (- 53)"
proof -
  let ?b = "loaded getSREBreaker 0 200"
  have h1: "summary ?b 0 = (0, 200)"
    by (simp add: summary_loaded getSREBreaker_def NewWindow_def)
  have h2: "\<not> guard_fires ?b 0 200"
    by (simp add: guard_fires_def loaded_def getSREBreaker_def f64_eval)
  have i: "isr ?b = Finite 1 (- 1)" by (simp add: loaded_def getSREBreaker_def)
  have h3: "f64_lt (Finite 0 0) (isr ?b)" by (simp add: i f64_eval)
  have v: "unclamped_dr (Finite 1 (- 1)) 0 200 = Finite 8962387318150241 (- 53)"
    by (simp add: unclamped_dr_def f64_eval)
  have n: "f64_sub (float64_of_int64 200) (f64_div (float64_of_int64 0) (Finite 1 (- 1))) = Finite 7036874417766400 (- 45)"
    by (simp add: f64_eval)
  have d: "float64_of_int64 (wrap64 (200 + 1)) = Finite 7072058789855232 (- 45)"
    by (simp add: f64_eval)
  show ?thesis
    using clamp_redundant_below_max_int64 [OF h1 h2 h3, of "sconst (Finite 0 0)"] h1 h2 h3 v n d
    by (simp add: i)
qed

text \<open>
  C2, as stated: with \<open>totalCount > ignoreRequests\<close> and
  \<open>successCount / totalCount \<ge> isr\<close>, \<open>Allow\<close> admits whatever the sample is. This fails
  for counts beyond \<open>2 ^ 53\<close>, which float64 no longer represents exactly. With
  \<open>isr = 1/2 + 2 ^ - 53\<close>, \<open>2 ^ 53 + 1\<close> successes among \<open>2 ^ 54 - 2\<close> requests are a
  success rate above \<open>isr\<close>, whether the rate is computed exactly or in float64; but the
  success count converts to \<open>2 ^ 53\<close>, the inspiration requests round to \<open>2 ^ 54 - 4\<close>,
  the guard does not fire, the drop probability is \<open>2 ^ - 53\<close> and the sample 0 is
  rejected.
\<close>

theorem healthy_rejected_beyond_2_53:
  "summary (loaded (New [WithInspirationSuccessRate (Finite 4503599627370497 (- 53))]) (2 ^ 53 + 1) (2 ^ 54 - 2)) 0
     = (2 ^ 53 + 1, 2 ^ 54 - 2)
   \<and> ignoreRequests (loaded (New [WithInspirationSuccessRate (Finite 4503599627370497 (- 53))]) (2 ^ 53 + 1) (2 ^ 54 - 2))
       < 2 ^ 54 - 2
   \<and> isr (loaded (New [WithInspirationSuccessRate (Finite 4503599627370497 (- 53))]) (2 ^ 53 + 1) (2 ^ 54 - 2))
       = Finite 4503599627370497 (- 53)
   \<and> f64_val (Finite 4503599627370497 (- 53)) = 4503599627370497 / 2 ^ 53
   \<and> (0::rat) < 4503599627370497 / 2 ^ 53 \<and> (4503599627370497 / 2 ^ 53 :: rat) \<le> 1
   \<and> (4503599627370497 / 2 ^ 53 :: rat) \<le> of_int (2 ^ 53 + 1) / of_int (2 ^ 54 - 2)
   \<and> f64_div (float64_of_int64 (2 ^ 53 + 1)) (float64_of_int64 (2 ^ 54 - 2)) = Finite 4503599627370497 (- 53)
   \<and> \<not> guard_fires (loaded (New [WithInspirationSuccessRate (Finite 4503599627370497 (- 53))]) (2 ^ 53 + 1) (2 ^ 54 - 2))
         (2 ^ 53 + 1) (2 ^ 54 - 2)
   \<and> spec_dr (Finite 4503599627370497 (- 53)) (2 ^ 53 + 1) (2 ^ 54 - 2) = Finite (2 ^ 52) (- 105)
   \<and> \<not> f64_lt (Finite 0 0) (Finite 0 0) \<and> f64_lt (Finite 0 0) (Finite 1 0)
   \<and> fst (Allow (loaded (New [WithInspirationSuccessRate (Finite 4503599627370497 (- 53))]) (2 ^ 53 + 1) (2 ^ 54 - 2))
        0 (sconst (Finite 0 0))) = Some ErrNotAllowed"
proof -
  let ?n = "New [WithInspirationSuccessRate (Finite 4503599627370497 (- 53))]"
  let ?b = "loaded ?n (2 ^ 53 + 1) (2 ^ 54 - 2)"
  have i: "isr (loaded ?n s t) = Finite 4503599627370497 (- 53)"
    "ignoreRequests (loaded ?n s t) = 100"
    "dropProba (loaded ?n s t) = default_dropProba"
    "rnd (loaded ?n s t) = \<lparr>idle = []\<rparr>" for s t
    by (simp_all add: loaded_def New_def WithInspirationSuccessRate_def default_options_def)
  have h1: "summary ?b 0 = (2 ^ 53 + 1, 2 ^ 54 - 2)"
    by (simp add: summary_loaded New_def NewWindow_def WithInspirationSuccessRate_def default_options_def)
  have v: "f64_val (Finite 4503599627370497 (- 53)) = 4503599627370497 / 2 ^ 53" by (simp add: power_int_minus)
  have r: "(0::rat) < 4503599627370497 / 2 ^ 53" "(4503599627370497 / 2 ^ 53 :: rat) \<le> 1"
    "(4503599627370497 / 2 ^ 53 :: rat) \<le> of_int (2 ^ 53 + 1) / of_int (2 ^ 54 - 2)" by simp_all
  have f: "f64_div (float64_of_int64 (2 ^ 53 + 1)) (float64_of_int64 (2 ^ 54 - 2)) = Finite 4503599627370497 (- 53)"
    by (simp add: f64_eval)
  have g: "\<not> guard_fires ?b (2 ^ 53 + 1) (2 ^ 54 - 2)"
    by (simp add: guard_fires_def i f64_eval)
  have dr: "spec_dr (Finite 4503599627370497 (- 53)) (2 ^ 53 + 1) (2 ^ 54 - 2) = Finite (2 ^ 52) (- 105)"
    by (simp add: spec_dr_def f64_eval)
  have l: "\<not> f64_lt (Finite 0 0) (Finite 0 0)" "f64_lt (Finite 0 0) (Finite 1 0)"
    "f64_lt (Finite 0 0) (Finite (2 ^ 52) (- 105))"
    by (simp_all add: f64_eval)
  have a: "fst (Allow ?b 0 (sconst (Finite 0 0))) = Some ErrNotAllowed"
    using Allow_no_guard [OF h1 g, of "sconst (Finite 0 0)"] l dr
    by (simp add: Let_def i pool_Get_def default_dropProba_def Float64_def)
  show ?thesis using h1 v r f g dr l a by (simp add: i)
qed

text \<open>
  C2, amended: for every window state with \<open>0 \<le> successCount \<le> totalCount \<le> 2 ^ 53\<close>,
  \<open>totalCount > ignoreRequests\<close>, a finite \<open>isr > 0\<close> and
  \<open>successCount / totalCount \<ge> isr\<close> (as rational numbers), \<open>Allow\<close> with the default
  policy returns nil for every sample that is not below zero: the guard admits, or the
  drop probability is the positive zero.
\<close>

theorem healthy_admits_up_to_2_53:
  assumes "summary b now = (accepts, tot)"
    and "isr b = Finite mx ex" and "0 < mx"
    and "0 \<le> accepts" and "accepts \<le> tot" and "tot \<le> 2 ^ 53"
    and "ignoreRequests b < tot"
    and "f64_val (isr b) \<le> of_int accepts / of_int tot"
    and "dropProba b = default_dropProba"
    and "\<not> f64_lt (shd (fst (pool_Get (rnd b) fresh))) (Finite 0 0)"
  shows "fst (Allow b now fresh) = None
       \<and> (guard_fires b accepts tot \<or> spec_dr (isr b) accepts tot = Finite 0 0)"
proof (cases "guard_fires b accepts tot")
  case True
  then show ?thesis by (simp add: Allow_guard [OF assms(1)])
next
  case False
  then have g: "\<not> f64_lt (float64_of_int64 tot) (f64_div (float64_of_int64 accepts) (Finite mx ex))"
    using assms(2) by (simp add: guard_fires_def)
  have dr: "spec_dr (isr b) accepts tot = Finite 0 0"
    unfolding assms(2)
    by (rule healthy_dr_zero [OF assms(3) assms(4) assms(5) assms(6) _ g]) (use assms(2,8) in simp)
  show ?thesis
    using assms(10)
    by (simp add: Allow_no_guard [OF assms(1) False] Let_def dr assms(9) default_dropProba_def Float64_def)
qed

theorem healthy_admits_up_to_2_53_witness:
  "summary (loaded getSREBreaker 100 200) 0 = (100, 200)
   \<and> isr (loaded getSREBreaker 100 200) = Finite 1 (- 1)
   \<and> ignoreRequests (loaded getSREBreaker 100 200) < 200
   \<and> f64_val (isr (loaded getSREBreaker 100 200)) \<le> of_int 100 / of_int 200
   \<and> dropProba (loaded getSREBreaker 100 200) = default_dropProba
   \<and> \<not> f64_lt (shd (fst (pool_Get (rnd (loaded getSREBreaker 100 200)) (sconst (Finite 0 0))))) (Finite 0 0)
   \<and> \<not> guard_fires (loaded getSREBreaker 100 200) 100 200
   \<and> spec_dr (isr (loaded getSREBreaker 100 200)) 100 200 = Finite 0 0
   \<and> fst (Allow (loaded getSREBreaker 100 200) 0 (sconst (Finite 0 0))) = None"
proof -
  let ?b = "loaded getSREBreaker 100 200"
  have i: "isr (loaded getSREBreaker s t) = Finite 1 (- 1)"
    "ignoreRequests (loaded getSREBreaker s t) = 100"
    "dropProba (loaded getSREBreaker s t) = default_dropProba"
    "rnd (loaded getSREBreaker s t) = \<lparr>idle = []\<rparr>" for s t
    by (simp_all add: loaded_def getSREBreaker_def)
  have h1: "summary ?b 0 = (100, 200)"
    by (simp add: summary_loaded getSREBreaker_def NewWindow_def)
  have h7: "ignoreRequests ?b < 200" by (simp add: i)
  have h8: "f64_val (isr ?b) \<le> of_int 100 / of_int 200" by (simp add: i)
  have h10: "\<not> f64_lt (shd (fst (pool_Get (rnd ?b) (sconst (Finite 0 0))))) (Finite 0 0)"
    by (simp add: i pool_Get_def f64_eval)
  have g: "\<not> guard_fires ?b 100 200" by (simp add: guard_fires_def i f64_eval)
  show ?thesis
    using healthy_admits_up_to_2_53 [OF h1 i(1) _ _ _ _ h7 h8 i(3) h10] h1 h7 h8 h10 g
    by (simp add: i)
qed

text \<open>
  C4, as stated: whenever \<open>Allow\<close> reaches the drop-probability computation, \<open>dr < 1\<close>,
  so some sample in \<open>[0, 1)\<close> is admitted. This fails at \<open>2 ^ 53\<close> failures and no
  success: \<open>totalCount\<close> and \<open>totalCount + 1\<close> convert to the same float64, \<open>dr\<close> is
  exactly 1, and even the largest sample below 1 is rejected, as every sample below 1 is
  (\<open>rejection_certain_every_sample\<close>). The state is the one that \<open>2 ^ 53\<close> calls of
  \<open>MarkFailed\<close> at one instant leave (\<open>marks_reach_loaded\<close>).
\<close>

theorem rejection_certain_at_2_53:
  "summary (loaded getSREBreaker 0 (2 ^ 53)) 0 = (0, 2 ^ 53)
   \<and> \<not> guard_fires (loaded getSREBreaker 0 (2 ^ 53)) 0 (2 ^ 53)
   \<and> f64_lt (Finite 0 0) (isr (loaded getSREBreaker 0 (2 ^ 53)))
   \<and> float64_of_int64 (2 ^ 53) = Finite (2 ^ 52) 1
   \<and> float64_of_int64 (wrap64 (2 ^ 53 + 1)) = Finite (2 ^ 52) 1
   \<and> spec_dr (isr (loaded getSREBreaker 0 (2 ^ 53))) 0 (2 ^ 53) = Finite (2 ^ 52) (- 52)
   \<and> \<not> f64_lt (spec_dr (isr (loaded getSREBreaker 0 (2 ^ 53))) 0 (2 ^ 53)) (Finite 1 0)
   \<and> f64_lt (Finite (2 ^ 53 - 1) (- 53)) (Finite 1 0)
   \<and> fst (Allow (loaded getSREBreaker 0 (2 ^ 53)) 0 (sconst (Finite (2 ^ 53 - 1) (- 53))))
       = Some ErrNotAllowed"
proof -
  let ?b = "loaded getSREBreaker 0 (2 ^ 53)"
  have i: "isr (loaded getSREBreaker s t) = Finite 1 (- 1)"
    "ignoreRequests (loaded getSREBreaker s t) = 100"
    "dropProba (loaded getSREBreaker s t) = default_dropProba"
    "rnd (loaded getSREBreaker s t) = \<lparr>idle = []\<rparr>" for s t
    by (simp_all add: loaded_def getSREBreaker_def)
  have h1: "summary ?b 0 = (0, 2 ^ 53)"
    by (simp add: summary_loaded getSREBreaker_def NewWindow_def)
  have h2: "\<not> guard_fires ?b 0 (2 ^ 53)"
    by (simp add: guard_fires_def i f64_eval)
  have h3: "f64_lt (Finite 0 0) (isr ?b)" by (simp add: i f64_eval)
  have t: "float64_of_int64 (2 ^ 53) = Finite (2 ^ 52) 1" by (simp add: f64_eval)
  have d: "float64_of_int64 (wrap64 (2 ^ 53 + 1)) = Finite (2 ^ 52) 1" by (simp add: f64_eval)
  have dr: "spec_dr (Finite 1 (- 1)) 0 (2 ^ 53) = Finite (2 ^ 52) (- 52)"
    by (simp add: spec_dr_def f64_eval)
  have l1: "\<not> f64_lt (Finite (2 ^ 52) (- 52)) (Finite 1 0)" by (simp add: f64_eval)
  have l2: "f64_lt (Finite (2 ^ 53 - 1) (- 53)) (Finite 1 0)" by (simp add: f64_eval)
  have l3: "f64_lt (Finite (2 ^ 53 - 1) (- 53)) (Finite (2 ^ 52) (- 52))" by (simp add: f64_eval)
  have a: "fst (Allow ?b 0 (sconst (Finite (2 ^ 53 - 1) (- 53)))) = Some ErrNotAllowed"
    using Allow_no_guard [OF h1 h2, of "sconst (Finite (2 ^ 53 - 1) (- 53))"] l3 dr
    by (simp add: Let_def i pool_Get_def default_dropProba_def Float64_def)
  show ?thesis using h1 h2 h3 t d dr l1 l2 a by (simp add: i)
qed

text \<open>
  C4, amended: for every window state with \<open>0 \<le> successCount \<le> totalCount < 2 ^ 53\<close>
  and \<open>isr > 0\<close> in which \<open>Allow\<close> reaches the drop-probability computation,
  \<open>dr < 1\<close>, indeed \<open>dr \<le> 1 - 2 ^ - 53\<close>; so under the default policy the sample
  \<open>1 - 2 ^ - 53\<close> of \<open>[0, 1)\<close> is admitted: rejection is never certain.
\<close>

theorem never_certain_below_2_53:
  assumes "summary b now = (accepts, tot)" and "\<not> guard_fires b accepts tot"
    and "f64_lt (Finite 0 0) (isr b)"
    and "0 \<le> accepts" and "accepts \<le> tot" and "tot < 2 ^ 53"
  shows "f64_lt (spec_dr (isr b) accepts tot) (Finite 1 0)
       \<and> \<not> f64_lt (Finite (2 ^ 53 - 1) (- 53)) (spec_dr (isr b) accepts tot)
       \<and> (dropProba b = default_dropProba
            \<and> shd (fst (pool_Get (rnd b) fresh)) = Finite (2 ^ 53 - 1) (- 53)
            \<longrightarrow> fst (Allow b now fresh) = None)"
proof -
  from assms(2) have g: "\<not> f64_lt (float64_of_int64 tot) (f64_div (float64_of_int64 accepts) (isr b))"
    by (simp add: guard_fires_def)
  obtain m e where dr: "spec_dr (isr b) accepts tot = Finite m e"
    and v: "(of_int m :: rat) * 2 powi e \<le> of_int (2 ^ 53 - 1) * 2 powi (- 53)"
    by (rule dr_bound [OF assms(3) assms(4) assms(5) assms(6) g])
  have "(of_int (2 ^ 53 - 1) :: rat) * 2 powi (- 53) < of_int 1 * 2 powi 0"
    by (simp add: power_int_minus field_simps)
  with v have 1: "f64_lt (Finite m e) (Finite 1 0)"
    unfolding f64_lt_Finite by (rule le_less_trans)
  from v have 2: "\<not> f64_lt (Finite (2 ^ 53 - 1) (- 53)) (Finite m e)"
    unfolding f64_lt_Finite by (simp only: not_less)
  show ?thesis
    using 1 2 by (simp add: dr Allow_no_guard [OF assms(1) assms(2)] Let_def default_dropProba_def Float64_def)
qed

theorem never_certain_below_2_53_witness:
  "summary (loaded getSREBreaker 0 (2 ^ 53 - 1)) 0 = (0, 2 ^ 53 - 1)
   \<and> \<not> guard_fires (loaded getSREBreaker 0 (2 ^ 53 - 1)) 0 (2 ^ 53 - 1)
   \<and> f64_lt (Finite 0 0) (isr (loaded getSREBreaker 0 (2 ^ 53 - 1)))
   \<and> spec_dr (isr (loaded getSREBreaker 0 (2 ^ 53 - 1))) 0 (2 ^ 53 - 1) = Finite (2 ^ 53 - 1) (- 53)
   \<and> f64_lt (spec_dr (isr (loaded getSREBreaker 0 (2 ^ 53 - 1))) 0 (2 ^ 53 - 1)) (Finite 1 0)
   \<and> fst (Allow (loaded getSREBreaker 0 (2 ^ 53 - 1)) 0 (sconst (Finite (2 ^ 53 - 1) (- 53)))) = None"
proof -
  let ?b = "loaded getSREBreaker 0 (2 ^ 53 - 1)"
  have i: "isr (loaded getSREBreaker s t) = Finite 1 (- 1)"
    "ignoreRequests (loaded getSREBreaker s t) = 100"
    "dropProba (loaded getSREBreaker s t) = default_dropProba"
    "rnd (loaded getSREBreaker s t) = \<lparr>idle = []\<rparr>" for s t
    by (simp_all add: loaded_def getSREBreaker_def)
  have h1: "summary ?b 0 = (0, 2 ^ 53 - 1)"
    by (simp add: summary_loaded getSREBreaker_def NewWindow_def)
  have h2: "\<not> guard_fires ?b 0 (2 ^ 53 - 1)"
    by (simp add: guard_fires_def i f64_eval)
  have h3: "f64_lt (Finite 0 0) (isr ?b)" by (simp add: i f64_eval)
  have dr: "spec_dr (Finite 1 (- 1)) 0 (2 ^ 53 - 1) = Finite (2 ^ 53 - 1) (- 53)"
    by (simp add: spec_dr_def f64_eval)
  show ?thesis
    using never_certain_below_2_53 [OF h1 h2 h3, of "sconst (Finite (2 ^ 53 - 1) (- 53))"] h1 h2 h3 dr
    by (simp add: i pool_Get_def)
qed

end
